theory Spec2Isabelle
  imports Complex_Main "HOL-Library.Word" "HOL-Library.Log_Nat"
begin

unbundle bit_operations_syntax

section \<open>Python numbers\<close>

text \<open>
  Python's \<^verbatim>\<open>int\<close> is unbounded and is modelled by \<^typ>\<open>int\<close>. Python's \<^verbatim>\<open>float\<close> is an
  IEEE 754 binary64 number; a finite float is modelled by the rational number it denotes, and
  every float operation of the source is the exact operation followed by \<open>fl\<close>, rounding
  to the nearest number with a 53 bit significand, ties to the even significand. The floats
  that the gateway computes from a packet are zero or of magnitude between \<open>1 / 16\<close> and
  \<open>2 ^ 17\<close>, and the sonar subtracts and scales wall-clock time stamps, so the limits of the
  exponent range of binary64 (subnormal numbers, overflow) are never met and are not modelled.
\<close>

type_synonym pyfloat = rat

definition round_half_even :: "rat \<Rightarrow> int" where
  "round_half_even x =
     (let f = \<lfloor>x\<rfloor>; d = x - of_int f
      in if d < 1 / 2 then f
         else if 1 / 2 < d then f + 1
         else if even f then f else f + 1)"

text \<open>The binary exponent of a positive rational: \<open>2 powi ilog2 x \<le> x < 2 powi (ilog2 x + 1)\<close>.\<close>

definition ilog2 :: "rat \<Rightarrow> int" where
  "ilog2 x = (if 1 \<le> x then bitlen \<lfloor>x\<rfloor> - 1 else - bitlen (\<lceil>1 / x\<rceil> - 1))"

definition fl :: "rat \<Rightarrow> pyfloat" where
  "fl x =
     (if x = 0 then 0
      else let u = 2 powi (ilog2 \<bar>x\<bar> - 52)
           in of_int (round_half_even (x / u)) * u)"

text \<open>The unit roundoff of binary64.\<close>

definition eps :: rat where
  "eps = 1 / 2 ^ 53"

text \<open>\<^verbatim>\<open>a / b\<close> on two ints (the divisors of the source are non-zero constants).\<close>

definition int_truediv :: "int \<Rightarrow> int \<Rightarrow> pyfloat" where
  "int_truediv a b = fl (of_int a / of_int b)"

text \<open>\<^verbatim>\<open>a * x\<close> and \<^verbatim>\<open>x + a\<close> with an int \<open>a\<close> and a float \<open>x\<close>: the int is converted first
  (exactly, for the magnitudes met here).\<close>

definition int_mul_float :: "int \<Rightarrow> pyfloat \<Rightarrow> pyfloat" where
  "int_mul_float a x = fl (of_int a * x)"

definition float_add_int :: "pyfloat \<Rightarrow> int \<Rightarrow> pyfloat" where
  "float_add_int x a = fl (x + of_int a)"

text \<open>\<^verbatim>\<open>x - y\<close> on two floats, \<^verbatim>\<open>x * a\<close> and \<^verbatim>\<open>x / a\<close> with a float \<open>x\<close> and a non-zero int \<open>a\<close>.\<close>

definition float_sub :: "pyfloat \<Rightarrow> pyfloat \<Rightarrow> pyfloat" where
  "float_sub x y = fl (x - y)"

definition float_mul_int :: "pyfloat \<Rightarrow> int \<Rightarrow> pyfloat" where
  "float_mul_int x a = fl (x * of_int a)"

definition float_div_int :: "pyfloat \<Rightarrow> int \<Rightarrow> pyfloat" where
  "float_div_int x a = fl (x / of_int a)"

text \<open>\<^verbatim>\<open>round(x)\<close> on a float gives the nearest int, ties to even; \<^verbatim>\<open>int(x)\<close> truncates
  towards zero.\<close>

definition py_round :: "pyfloat \<Rightarrow> int" where
  "py_round x = round_half_even x"

definition py_int :: "pyfloat \<Rightarrow> int" where
  "py_int x = (if 0 \<le> x then \<lfloor>x\<rfloor> else \<lceil>x\<rceil>)"

section \<open>The Picoboard gateway\<close>

subsection \<open>Constants set by the constructor\<close>

definition analog_sensor_list :: "nat list" where
  "analog_sensor_list = [1, 2, 3, 5, 7, 8]"

definition button_position :: nat where
  "button_position = 4"

definition light_position :: nat where
  "light_position = 6"

definition sound_position :: nat where
  "sound_position = 7"

definition inverted_analog_list :: "nat list" where
  "inverted_analog_list = [1, 2, 3, 5]"

subsection \<open>\<^verbatim>\<open>analog_scaling\<close>\<close>

definition analog_scaling :: "int \<Rightarrow> nat \<Rightarrow> int" where
  "analog_scaling val index =
     (let (input_low, input_high) =
            (if index = light_position then (0, 100)
             else if index \<in> set inverted_analog_list then (1023, 0)
             else (0, 1023));
          new_value_low = 0;
          new_value_high = 100
      in py_round
           (float_add_int
              (int_mul_float (val - input_low)
                 (int_truediv (new_value_high - new_value_low) (input_high - input_low)))
              new_value_low))"

subsection \<open>The polling loop \<^verbatim>\<open>run\<close>\<close>

text \<open>
  A packet is the \<^verbatim>\<open>bytes\<close> object returned by \<^verbatim>\<open>self.picoboard.read(18)\<close>; indexing it
  yields an int in \<open>[0, 255]\<close> and raises \<^verbatim>\<open>IndexError\<close> past its end.
\<close>

datatype error = IndexError

type_synonym packet = "8 word list"

definition byte_at :: "packet \<Rightarrow> nat \<Rightarrow> error + int" where
  "byte_at p k = (if k < length p then Inr (uint (p ! k)) else Inl IndexError)"

text \<open>\<^verbatim>\<open>((int(data_packet[2 * i]) & 7) << 7) + int(data_packet[2 * i + 1])\<close>\<close>

definition raw_sensor_value :: "packet \<Rightarrow> nat \<Rightarrow> error + int" where
  "raw_sensor_value p i =
     (case byte_at p (2 * i) of
        Inl e \<Rightarrow> Inl e
      | Inr hi \<Rightarrow>
          (case byte_at p (2 * i + 1) of
             Inl e \<Rightarrow> Inl e
           | Inr lo \<Rightarrow> Inr (push_bit 7 (hi AND 7) + lo)))"

text \<open>
  The \<^verbatim>\<open>if/elif\<close> chain of the loop body that sets \<^verbatim>\<open>cooked\<close> for entry \<open>i\<close>, followed by the
  separate \<^verbatim>\<open>if i in self.analog_sensor_list\<close>. The variable \<^verbatim>\<open>cooked\<close> is \<^verbatim>\<open>None\<close> at the
  start of a cycle and keeps its value where no branch assigns it.
\<close>

definition cook :: "nat \<Rightarrow> int \<Rightarrow> int option \<Rightarrow> int option" where
  "cook i raw cooked =
     (let cooked =
            (if i = 0 then Some raw
             else if i = light_position then
               (let c = (if raw < 25 then 100 - raw
                         else py_round (int_mul_float (1023 - raw) (int_truediv 75 998)))
                in Some (analog_scaling c light_position))
             else if i = sound_position then
               (let n = max 0 (raw - 18)
                in if n < 50 then Some (py_int (int_truediv n 2))
                   else Some (25 + min 75 (py_int (int_mul_float (n - 50) (int_truediv 75 580)))))
             else if i = button_position then Some (of_bool (raw = 0))
             else cooked)
      in if i \<in> set analog_sensor_list then Some (analog_scaling raw i) else cooked)"

text \<open>One pass through the body of \<^verbatim>\<open>for i in range(9)\<close>: the loop either goes on with the
  next \<open>i\<close> (also after \<^verbatim>\<open>continue\<close>) or is left by \<^verbatim>\<open>break\<close>.\<close>

datatype flow = Proceed | Break

type_synonym locals = "int option \<times> int option list"

definition decode_entry :: "packet \<Rightarrow> nat \<Rightarrow> locals \<Rightarrow> error + flow \<times> locals" where
  "decode_entry p i s =
     (case s of (cooked, report) \<Rightarrow>
        (case raw_sensor_value p i of
           Inl e \<Rightarrow> Inl e
         | Inr raw \<Rightarrow>
             (let cooked = cook i raw cooked
              in Inr (Proceed, cooked, if i \<noteq> 0 then report @ [cooked] else report))))"

definition loop_body :: "packet \<Rightarrow> nat \<Rightarrow> locals \<Rightarrow> error + flow \<times> locals" where
  "loop_body p i s =
     (if i = 0 then
        (case byte_at p 0 of
           Inl e \<Rightarrow> Inl e
         | Inr b0 \<Rightarrow>
             (let pico_channel = drop_bit 3 (b0 - 128)
              in if pico_channel \<noteq> 15 \<and> pico_channel \<noteq> 0 then Inr (Proceed, s)
                 else (case byte_at p 1 of
                         Inl e \<Rightarrow> Inl e
                       | Inr pico_data \<Rightarrow>
                           if pico_data \<noteq> 4 then Inr (Break, s) else decode_entry p i s)))
      else decode_entry p i s)"

fun for_range :: "packet \<Rightarrow> nat list \<Rightarrow> locals \<Rightarrow> error + locals" where
  "for_range p [] s = Inr s"
| "for_range p (i # js) s =
     (case loop_body p i s of
        Inl e \<Rightarrow> Inl e
      | Inr (Break, s') \<Rightarrow> Inr s'
      | Inr (Proceed, s') \<Rightarrow> for_range p js s')"

text \<open>
  The state of the gateway that the loop touches: the list \<^verbatim>\<open>self.payload['report']\<close>, the
  messages handed to \<^verbatim>\<open>publish_payload\<close> (report and topic, oldest first) and the number of
  poll bytes written to the board.
\<close>

record gateway =
  publisher_topic :: string
  payload :: "int option list"
  published :: "(int option list \<times> string) list"
  polls :: nat

definition init_gateway :: "string \<Rightarrow> gateway" where
  "init_gateway topic = \<lparr>publisher_topic = topic, payload = [], published = [], polls = 0\<rparr>"

text \<open>One turn of \<^verbatim>\<open>while True\<close>, from the moment the 18 waiting bytes are read as \<open>p\<close>.\<close>

definition run_cycle :: "packet \<Rightarrow> gateway \<Rightarrow> error + gateway" where
  "run_cycle p g =
     (case for_range p [0..<9] (None, payload g) of
        Inl e \<Rightarrow> Inl e
      | Inr (cooked, report) \<Rightarrow>
          Inr (g\<lparr>published := published g @ [(report, publisher_topic g)],
                 payload := [],
                 polls := Suc (polls g)\<rparr>))"

text \<open>\<^verbatim>\<open>run\<close>: the first poll byte, then one cycle for every packet that arrives.\<close>

fun cycles :: "packet list \<Rightarrow> gateway \<Rightarrow> error + gateway" where
  "cycles [] g = Inr g"
| "cycles (p # ps) g = (case run_cycle p g of Inl e \<Rightarrow> Inl e | Inr g' \<Rightarrow> cycles ps g')"

definition run :: "packet list \<Rightarrow> gateway \<Rightarrow> error + gateway" where
  "run ps g = cycles ps (g\<lparr>polls := Suc (polls g)\<rparr>)"

section \<open>The sonar\<close>

text \<open>
  The \<^verbatim>\<open>pi\<close> object of the pigpio library is modelled by the mode of every gpio and the
  list of \<^verbatim>\<open>set_mode\<close> calls made so far. Modes are the library's numbers, \<^verbatim>\<open>pigpio.INPUT\<close>
  being 0 and \<^verbatim>\<open>pigpio.OUTPUT\<close> being 1.
\<close>

record pi =
  modes :: "nat \<Rightarrow> nat"
  mode_calls :: "(nat \<times> nat) list"

definition INPUT :: nat where
  "INPUT = 0"

definition OUTPUT :: nat where
  "OUTPUT = 1"

definition get_mode :: "pi \<Rightarrow> nat \<Rightarrow> nat" where
  "get_mode h gpio = modes h gpio"

definition set_mode :: "pi \<Rightarrow> nat \<Rightarrow> nat \<Rightarrow> pi" where
  "set_mode h gpio m = h\<lparr>modes := (modes h)(gpio := m), mode_calls := mode_calls h @ [(gpio, m)]\<rparr>"

record sonar =
  trig :: nat
  echo :: nat
  trig_mode :: nat
  echo_mode :: nat
  inited :: bool

text \<open>\<^verbatim>\<open>Sonar.__init__\<close> and \<^verbatim>\<open>Sonar.cancel\<close>, on the pair of the object and the \<^verbatim>\<open>pi\<close> it uses.\<close>

definition sonar_init :: "pi \<Rightarrow> nat \<Rightarrow> nat \<Rightarrow> sonar \<times> pi" where
  "sonar_init h trigger echo_pin =
     (let tm = get_mode h trigger;
          em = get_mode h echo_pin;
          h = set_mode h trigger OUTPUT;
          h = set_mode h echo_pin INPUT
      in (\<lparr>trig = trigger, echo = echo_pin, trig_mode = tm, echo_mode = em, inited = True\<rparr>, h))"

definition cancel :: "sonar \<times> pi \<Rightarrow> sonar \<times> pi" where
  "cancel sh =
     (case sh of (s, h) \<Rightarrow>
        if inited s then
          (let s = s\<lparr>inited := False\<rparr>;
               h = set_mode h (trig s) (trig_mode s);
               h = set_mode h (echo s) (echo_mode s)
           in (s, h))
        else (s, h))"

text \<open>
  \<^verbatim>\<open>Sonar.read\<close> sees the world through two calls only: \<^verbatim>\<open>self.pi.read(self._echo)\<close> and
  \<^verbatim>\<open>time.time()\<close>. The world of one call of \<^verbatim>\<open>read\<close>, after the trigger pulse, is therefore
  the sequence of levels that the successive polls of the echo pin return and the sequence
  of timestamps that the successive clock readings return. The counters \<open>i\<close> and \<open>j\<close> say
  how many polls and clock readings were made. A loop that polls for ever returns nothing.
\<close>

record world =
  echo_polls :: "nat \<Rightarrow> bool"
  clock :: "nat \<Rightarrow> pyfloat"

datatype pyval = PyInt int | PyFloat pyfloat

text \<open>\<^verbatim>\<open>(t4 - t3) > 0.03\<close>\<close>

definition timed_out :: "pyfloat \<Rightarrow> pyfloat \<Rightarrow> bool" where
  "timed_out t_now t_start \<longleftrightarrow> fl (3 / 100) < float_sub t_now t_start"

text \<open>The two \<^verbatim>\<open>while\<close> loops: \<open>Inl v\<close> is \<^verbatim>\<open>return v\<close> from inside the loop, \<open>Inr (i, j)\<close>
  is the loop left with the counters at \<open>(i, j)\<close>.\<close>

partial_function (option) wait_for_echo ::
  "world \<Rightarrow> pyfloat \<Rightarrow> nat \<times> nat \<Rightarrow> (pyval + nat \<times> nat) option" where
  "wait_for_echo w t3 c =
     (case c of (i, j) \<Rightarrow>
        if \<not> echo_polls w i then
          (let t4 = clock w j
           in if timed_out t4 t3 then Some (Inl (PyInt (- 1)))
              else wait_for_echo w t3 (Suc i, Suc j))
        else Some (Inr (Suc i, j)))"

partial_function (option) wait_for_finish ::
  "world \<Rightarrow> pyfloat \<Rightarrow> nat \<times> nat \<Rightarrow> (pyval + nat \<times> nat) option" where
  "wait_for_finish w t1 c =
     (case c of (i, j) \<Rightarrow>
        if echo_polls w i then
          (let t5 = clock w j
           in if timed_out t5 t1 then Some (Inl (PyInt (- 2)))
              else wait_for_finish w t1 (Suc i, Suc j))
        else Some (Inr (Suc i, j)))"

declare wait_for_echo.simps [code]
declare wait_for_finish.simps [code]

definition read :: "world \<Rightarrow> pyval option" where
  "read w =
     (let t3 = clock w 0
      in case wait_for_echo w t3 (0, 1) of
           None \<Rightarrow> None
         | Some (Inl v) \<Rightarrow> Some v
         | Some (Inr (i, j)) \<Rightarrow>
             (let t1 = clock w j
              in case wait_for_finish w t1 (i, Suc j) of
                   None \<Rightarrow> None
                 | Some (Inl v) \<Rightarrow> Some v
                 | Some (Inr (i', j')) \<Rightarrow>
                     (let t2 = clock w j'
                      in Some (PyFloat
                           (float_mul_int
                              (float_div_int (float_mul_int (float_sub t2 t1) 340) 2) 100)))))"

section \<open>Rounding to binary64: the error of one operation\<close>

lemma round_half_even_close: "\<bar>of_int (round_half_even y) - y\<bar> \<le> 1 / 2"
  unfolding round_half_even_def Let_def
  by (auto simp: abs_if) linarith+

lemma round_half_even_unique:
  assumes "of_int m - 1 / 2 < y" "y < of_int m + 1 / 2"
  shows "round_half_even y = m"
proof -
  have "\<lfloor>y + 1 / 2\<rfloor> = m" using assms by linarith
  show ?thesis
    unfolding round_half_even_def Let_def
    using assms by (auto; linarith)
qed

lemma ilog2_lower: assumes "0 < x" shows "2 powi (ilog2 x) \<le> x"
proof (cases "1 \<le> x")
  case True
  then have pos: "0 < \<lfloor>x\<rfloor>" by linarith
  from bitlen_bounds[OF pos] have "2 ^ nat (bitlen \<lfloor>x\<rfloor> - 1) \<le> \<lfloor>x\<rfloor>" by simp
  then have "(2::rat) ^ nat (bitlen \<lfloor>x\<rfloor> - 1) \<le> of_int \<lfloor>x\<rfloor>"
    by (metis of_int_le_iff of_int_numeral of_int_power)
  also have "\<dots> \<le> x" by simp
  finally have "(2::rat) ^ nat (bitlen \<lfloor>x\<rfloor> - 1) \<le> x" .
  moreover have "bitlen \<lfloor>x\<rfloor> - 1 \<ge> 0" using pos by (simp add: bitlen_alt_def)
  ultimately show ?thesis using True by (simp add: ilog2_def power_int_def)
next
  case False
  then have x1: "x < 1" by simp
  define y where "y = 1 / x"
  have y1: "1 < y" using assms x1 by (simp add: y_def)
  define k where "k = bitlen (\<lceil>y\<rceil> - 1)"
  have pos: "0 < \<lceil>y\<rceil> - 1" using y1 by linarith
  from bitlen_bounds[OF pos] have "\<lceil>y\<rceil> - 1 < 2 ^ nat k" by (simp add: k_def)
  then have "\<lceil>y\<rceil> \<le> 2 ^ nat k" by simp
  then have "of_int \<lceil>y\<rceil> \<le> (2::rat) ^ nat k"
    by (metis of_int_le_iff of_int_numeral of_int_power)
  then have "y \<le> 2 ^ nat k" by (meson le_of_int_ceiling order_trans)
  then have "1 / 2 ^ nat k \<le> x" using assms unfolding y_def
    by (simp add: field_simps)
  moreover have "k \<ge> 0" by (simp add: k_def bitlen_nonneg)
  moreover have "2 powi (- k) = 1 / (2::rat) ^ nat k" using \<open>k \<ge> 0\<close>
    by (simp add: power_int_minus power_int_nonneg_exp field_simps)
  ultimately show ?thesis using False
    by (simp add: ilog2_def k_def[symmetric] y_def[symmetric])
qed

lemma ilog2_upper: assumes "0 < x" shows "x < 2 powi (ilog2 x + 1)"
proof (cases "1 \<le> x")
  case True
  then have pos: "0 < \<lfloor>x\<rfloor>" by linarith
  have nn: "bitlen \<lfloor>x\<rfloor> \<ge> 0" by (simp add: bitlen_nonneg)
  from bitlen_bounds[OF pos] have "\<lfloor>x\<rfloor> + 1 \<le> 2 ^ nat (bitlen \<lfloor>x\<rfloor>)" by simp
  then have "of_int (\<lfloor>x\<rfloor> + 1) \<le> (2::rat) ^ nat (bitlen \<lfloor>x\<rfloor>)"
    by (metis of_int_le_iff of_int_numeral of_int_power)
  moreover have "x < of_int (\<lfloor>x\<rfloor> + 1)" by linarith
  ultimately have "x < (2::rat) ^ nat (bitlen \<lfloor>x\<rfloor>)" by linarith
  then show ?thesis using True nn by (simp add: ilog2_def power_int_nonneg_exp)
next
  case False
  then have x1: "x < 1" by simp
  define y where "y = 1 / x"
  have y1: "1 < y" using assms x1 by (simp add: y_def)
  define k where "k = bitlen (\<lceil>y\<rceil> - 1)"
  have pos: "0 < \<lceil>y\<rceil> - 1" using y1 by linarith
  have k1: "k \<ge> 1" using pos by (simp add: k_def bitlen_alt_def)
  from bitlen_bounds[OF pos] have "2 ^ nat (k - 1) \<le> \<lceil>y\<rceil> - 1" by (simp add: k_def)
  then have "of_int (2 ^ nat (k - 1)) \<le> (of_int (\<lceil>y\<rceil> - 1) :: rat)"
    using of_int_le_iff by blast
  then have "(2::rat) ^ nat (k - 1) \<le> of_int \<lceil>y\<rceil> - 1" by simp
  moreover have "of_int \<lceil>y\<rceil> - 1 < y" by linarith
  ultimately have "(2::rat) ^ nat (k - 1) < y" by linarith
  then have "x < 1 / 2 ^ nat (k - 1)" using assms unfolding y_def
    by (simp add: field_simps)
  moreover have "2 powi (- k + 1) = 1 / (2::rat) ^ nat (k - 1)" using k1
    by (simp add: power_int_def field_simps nat_diff_distrib)
  ultimately show ?thesis using False
    by (simp add: ilog2_def k_def[symmetric] y_def[symmetric])
qed

lemma fl_close: "\<bar>fl x - x\<bar> \<le> \<bar>x\<bar> * eps"
proof (cases "x = 0")
  case True
  then show ?thesis by (simp add: fl_def)
next
  case False
  define e where "e = ilog2 \<bar>x\<bar>"
  define u :: rat where "u = 2 powi (e - 52)"
  have upos: "0 < u" by (simp add: u_def)
  have lo: "2 powi e \<le> \<bar>x\<bar>" unfolding e_def using False by (intro ilog2_lower) simp
  have u2: "u = 2 powi e / 2 ^ 52" by (simp add: u_def power_int_diff)
  have "fl x = of_int (round_half_even (x / u)) * u"
    using False by (simp add: fl_def Let_def u_def e_def)
  then have "fl x - x = (of_int (round_half_even (x / u)) - x / u) * u"
    using upos by (simp add: field_simps)
  then have "\<bar>fl x - x\<bar> = \<bar>of_int (round_half_even (x / u)) - x / u\<bar> * u"
    using upos by (simp add: abs_mult)
  also have "\<dots> \<le> (1 / 2) * u"
    using round_half_even_close[of "x / u"] upos by (intro mult_right_mono) auto
  also have "\<dots> = 2 powi e * eps" by (simp add: u2 eps_def)
  also have "\<dots> \<le> \<bar>x\<bar> * eps" using lo by (intro mult_right_mono) (auto simp: eps_def)
  finally show ?thesis .
qed

text \<open>The result of \<open>fl\<close> has a significand of 53 bits at the exponent of its argument, and
  a few values agree with the floats that Python prints for \<^verbatim>\<open>0.1\<close>, \<^verbatim>\<open>0.03\<close> and \<^verbatim>\<open>0.75\<close>.\<close>

lemma fl_significand:
  assumes "x \<noteq> 0"
  shows "\<exists>m. fl x = of_int m * 2 powi (ilog2 \<bar>x\<bar> - 52) \<and> 2 ^ 52 \<le> \<bar>m\<bar> \<and> \<bar>m\<bar> \<le> 2 ^ 53"
proof -
  define e where "e = ilog2 \<bar>x\<bar>"
  define u :: rat where "u = 2 powi (e - 52)"
  define m where "m = round_half_even (x / u)"
  define y where "y = \<bar>x\<bar> / u"
  have upos: "0 < u" by (simp add: u_def)
  have ax: "0 < \<bar>x\<bar>" using assms by simp
  have lo: "2 powi e \<le> \<bar>x\<bar>" unfolding e_def using ax by (rule ilog2_lower)
  have hi: "\<bar>x\<bar> < 2 powi (e + 1)" unfolding e_def using ax by (rule ilog2_upper)
  have u2: "2 powi e = 4503599627370496 * u" "2 powi (e + 1) = 9007199254740992 * u"
    by (simp_all add: u_def power_int_diff power_int_add)
  have "4503599627370496 * u \<le> \<bar>x\<bar>" "\<bar>x\<bar> < 9007199254740992 * u"
    using lo hi unfolding u2 by simp_all
  then have q: "4503599627370496 \<le> y" "y < 9007199254740992"
    unfolding y_def using upos by (simp_all add: pos_le_divide_eq pos_divide_less_eq)
  have ay: "\<bar>x / u\<bar> = y" unfolding y_def using upos by simp
  have fl: "fl x = of_int m * u"
    using assms by (simp add: fl_def Let_def m_def u_def e_def)
  have c: "\<bar>of_int m - x / u\<bar> \<le> 1 / 2" unfolding m_def by (rule round_half_even_close)
  then have "\<bar>x / u\<bar> - 1 / 2 \<le> \<bar>of_int m :: rat\<bar>" "\<bar>of_int m :: rat\<bar> \<le> \<bar>x / u\<bar> + 1 / 2"
    by linarith+
  then have "y - 1 / 2 \<le> \<bar>of_int m :: rat\<bar>" "\<bar>of_int m :: rat\<bar> \<le> y + 1 / 2"
    by (simp_all only: ay)
  with q have "(of_int 4503599627370495 :: rat) < of_int \<bar>m\<bar>"
    "(of_int \<bar>m\<bar> :: rat) < of_int 9007199254740993"
    by simp_all
  then have "4503599627370495 < \<bar>m\<bar>" "\<bar>m\<bar> < 9007199254740993"
    by (simp_all only: of_int_less_iff)
  then have b: "2 ^ 52 \<le> \<bar>m\<bar>" "\<bar>m\<bar> \<le> 2 ^ 53" by simp_all
  have f: "fl x = of_int m * 2 powi (ilog2 \<bar>x\<bar> - 52)" using fl unfolding u_def e_def .
  show ?thesis
    apply (rule exI[of _ m])
    apply (intro conjI)
      apply (rule f)
     apply (rule b(1))
    apply (rule b(2))
    done
qed

lemma fl_examples:
  "fl (1 / 10) = 3602879701896397 / 36028797018963968"
  "fl (3 / 100) = 1080863910568919 / 36028797018963968"
  "fl (3 / 4) = 3 / 4"
  by code_simp+

lemma mul_close:
  fixes n :: int and q B :: rat
  assumes "\<bar>of_int n * q\<bar> \<le> B"
  shows "\<bar>fl (of_int n * fl q) - of_int n * q\<bar> \<le> 3 * B * eps"
    and "\<bar>fl (of_int n * fl q)\<bar> \<le> 2 * B"
proof -
  define c where "c = fl q"
  define y where "y = fl (of_int n * c)"
  have B0: "0 \<le> B" using assms by linarith
  have "\<bar>of_int n * c - of_int n * q\<bar> = \<bar>of_int n\<bar> * \<bar>c - q\<bar>"
    by (simp add: abs_mult flip: right_diff_distrib)
  also have "\<dots> \<le> \<bar>of_int n\<bar> * (\<bar>q\<bar> * eps)"
    unfolding c_def by (intro mult_left_mono fl_close) simp
  also have "\<dots> = \<bar>of_int n * q\<bar> * eps" by (simp add: abs_mult)
  also have "\<dots> \<le> B * eps" using assms by (intro mult_right_mono) (auto simp: eps_def)
  finally have s1: "\<bar>of_int n * c - of_int n * q\<bar> \<le> B * eps" .
  have small: "B * eps \<le> B * 1" using B0 by (intro mult_left_mono) (auto simp: eps_def)
  have m1: "\<bar>of_int n * c\<bar> \<le> 2 * B" using s1 small assms by linarith
  have "\<bar>y - of_int n * c\<bar> \<le> \<bar>of_int n * c\<bar> * eps" unfolding y_def by (rule fl_close)
  also have "\<dots> \<le> (2 * B) * eps" using m1 by (intro mult_right_mono) (auto simp: eps_def)
  finally have s2: "\<bar>y - of_int n * c\<bar> \<le> 2 * B * eps" .
  show "\<bar>fl (of_int n * fl q) - of_int n * q\<bar> \<le> 3 * B * eps"
    using s1 s2 unfolding y_def c_def by linarith
  moreover have "3 * B * eps \<le> B * 1"
    using B0 by (simp add: eps_def)
  ultimately show "\<bar>fl (of_int n * fl q)\<bar> \<le> 2 * B"
    using assms by linarith
qed

lemma scale_close:
  fixes n :: int and q B :: rat
  assumes "\<bar>of_int n * q\<bar> \<le> B"
  shows "\<bar>fl (fl (of_int n * fl q) + 0) - of_int n * q\<bar> \<le> 5 * B * eps"
proof -
  define y where "y = fl (of_int n * fl q)"
  have B0: "0 \<le> B" using assms by linarith
  have "\<bar>fl y - y\<bar> \<le> \<bar>y\<bar> * eps" by (rule fl_close)
  also have "\<dots> \<le> (2 * B) * eps"
    using mul_close(2)[OF assms] unfolding y_def by (intro mult_right_mono) (auto simp: eps_def)
  finally have "\<bar>fl y - y\<bar> \<le> 2 * B * eps" .
  then show ?thesis using mul_close(1)[OF assms] unfolding y_def by simp
qed

lemma round_near:
  fixes A B :: int
  assumes B: "0 < B" and nt: "(2 * A + B) mod (2 * B) \<noteq> 0"
    and y: "\<bar>y - of_int A / of_int B\<bar> < 1 / of_int (2 * B)"
  shows "round_half_even y = (2 * A + B) div (2 * B)"
proof -
  define m where "m = (2 * A + B) div (2 * B)"
  define k where "k = (2 * A + B) mod (2 * B)"
  have "0 \<le> k \<and> k < 2 * B" unfolding k_def using B by simp
  moreover have "k \<noteq> 0" using nt by (simp add: k_def)
  ultimately have k: "1 \<le> k" "k \<le> 2 * B - 1" by linarith+
  have "2 * A + B = 2 * B * m + k" by (simp add: m_def k_def)
  then have "(of_int (2 * A + B) :: rat) = of_int (2 * B * m + k)" by simp
  then have "2 * (of_int A :: rat) = 2 * of_int B * of_int m + of_int k - of_int B" by simp
  then have t: "of_int A / (of_int B :: rat) = of_int m - 1 / 2 + of_int k / of_int (2 * B)"
    using B by (simp add: field_simps)
  have "(1::rat) \<le> of_int k" "(of_int k :: rat) \<le> of_int (2 * B) - 1"
    using k by linarith+
  then have kb: "1 / of_int (2 * B) \<le> (of_int k :: rat) / of_int (2 * B)"
     "(of_int k :: rat) / of_int (2 * B) \<le> 1 - 1 / of_int (2 * B)"
    using B by (simp_all add: field_simps)
  have "of_int m - 1 / 2 < y" "y < of_int m + 1 / 2" using y t kb by linarith+
  then show ?thesis unfolding m_def [symmetric] by (rule round_half_even_unique)
qed

lemma ratio_bound:
  fixes A B :: int
  assumes "0 < B" "\<bar>A\<bar> \<le> 2 ^ 20 * B"
  shows "\<bar>of_int A / of_int B :: rat\<bar> \<le> 2 ^ 20"
proof -
  have "(of_int \<bar>A\<bar> :: rat) \<le> of_int (2 ^ 20 * B)" using assms(2) by (simp only: of_int_le_iff)
  then have "\<bar>of_int A :: rat\<bar> \<le> 2 ^ 20 * of_int B" by simp
  then show ?thesis using assms(1) by (simp add: field_simps)
qed

lemma tolerance:
  fixes B :: int
  assumes "0 < B" "B \<le> 1024"
  shows "5 * 2 ^ 20 * eps < 1 / (of_int (2 * B) :: rat)"
proof -
  have "(of_int (2 * B) :: rat) \<le> of_int 2048" using assms by (simp only: of_int_le_iff)
  then have "1 / 2048 \<le> 1 / (of_int (2 * B) :: rat)" using assms(1) by (simp add: field_simps)
  moreover have "5 * 2 ^ 20 * eps < 1 / 2048" by (simp add: eps_def)
  ultimately show ?thesis by linarith
qed

lemma scaled_round:
  fixes n a b A B :: int
  assumes t: "of_int n * (of_int a / of_int b) = (of_int A / of_int B :: rat)"
    and B: "0 < B" "B \<le> 1024" and A: "\<bar>A\<bar> \<le> 2 ^ 20 * B"
    and nt: "(2 * A + B) mod (2 * B) \<noteq> 0"
  shows "py_round (float_add_int (int_mul_float n (int_truediv a b)) 0) = (2 * A + B) div (2 * B)"
proof -
  let ?q = "of_int a / of_int b :: rat"
  have "\<bar>of_int n * ?q\<bar> \<le> 2 ^ 20" unfolding t using B(1) A by (rule ratio_bound)
  from scale_close[OF this]
  have "\<bar>fl (fl (of_int n * fl ?q) + 0) - of_int A / of_int B\<bar> \<le> 5 * 2 ^ 20 * eps"
    unfolding t .
  also have "\<dots> < 1 / of_int (2 * B)" using B by (rule tolerance)
  finally have "round_half_even (fl (fl (of_int n * fl ?q) + 0)) = (2 * A + B) div (2 * B)"
    by (rule round_near[OF B(1) nt])
  then show ?thesis
    by (simp add: py_round_def float_add_int_def int_mul_float_def int_truediv_def)
qed

lemma mul_round:
  fixes n a b A B :: int
  assumes t: "of_int n * (of_int a / of_int b) = (of_int A / of_int B :: rat)"
    and B: "0 < B" "B \<le> 1024" and A: "\<bar>A\<bar> \<le> 2 ^ 20 * B"
    and nt: "(2 * A + B) mod (2 * B) \<noteq> 0"
  shows "py_round (int_mul_float n (int_truediv a b)) = (2 * A + B) div (2 * B)"
proof -
  let ?q = "of_int a / of_int b :: rat"
  have "\<bar>of_int n * ?q\<bar> \<le> 2 ^ 20" unfolding t using B(1) A by (rule ratio_bound)
  from mul_close(1)[OF this]
  have "\<bar>fl (of_int n * fl ?q) - of_int A / of_int B\<bar> \<le> 3 * 2 ^ 20 * eps"
    unfolding t .
  also have "\<dots> \<le> 5 * 2 ^ 20 * eps" by (simp add: eps_def)
  also have "\<dots> < 1 / of_int (2 * B)" using B by (rule tolerance)
  finally have "round_half_even (fl (of_int n * fl ?q)) = (2 * A + B) div (2 * B)"
    by (rule round_near[OF B(1) nt])
  then show ?thesis
    by (simp add: py_round_def int_mul_float_def int_truediv_def)
qed

lemma exact_round:
  fixes A B :: int
  assumes "0 < B" "(2 * A + B) mod (2 * B) \<noteq> 0"
  shows "round_half_even (of_int A / of_int B) = (2 * A + B) div (2 * B)"
  using assms by (intro round_near) simp_all

section \<open>The scaling functions as integer quotients\<close>

lemma odd_no_tie:
  fixes A B :: int
  assumes "odd B"
  shows "(2 * A + B) mod (2 * B) \<noteq> 0"
proof
  assume "(2 * A + B) mod (2 * B) = 0"
  then have "2 * B dvd 2 * A + B" by (simp add: dvd_eq_mod_eq_0)
  moreover have "2 dvd 2 * B" by simp
  ultimately have "2 dvd 2 * A + B" by (rule dvd_trans[rotated])
  with assms show False by simp
qed

lemma analog_scaling_plain:
  assumes "index \<noteq> light_position" "index \<notin> set inverted_analog_list" "\<bar>r\<bar> \<le> 2048"
  shows "analog_scaling r index = (200 * r + 1023) div 2046"
proof -
  have "(2 * (100 * r) + 1023) mod (2 * 1023) \<noteq> 0" by (rule odd_no_tie) simp
  with assms(3) have "py_round (float_add_int (int_mul_float r (int_truediv 100 1023)) 0)
      = (2 * (100 * r) + 1023) div (2 * 1023)"
    by (intro scaled_round) simp_all
  then show ?thesis using assms(1,2) by (simp add: analog_scaling_def)
qed

lemma analog_scaling_inverted:
  assumes "index \<in> set inverted_analog_list" "\<bar>r\<bar> \<le> 2048"
  shows "analog_scaling r index = (200 * (1023 - r) + 1023) div 2046"
proof -
  have "(2 * (100 * (1023 - r)) + 1023) mod (2 * 1023) \<noteq> 0" by (rule odd_no_tie) simp
  with assms(2) have "py_round (float_add_int (int_mul_float (r - 1023) (int_truediv 100 (- 1023))) 0)
      = (2 * (100 * (1023 - r)) + 1023) div (2 * 1023)"
    by (intro scaled_round) (simp_all add: field_simps)
  moreover have "index \<noteq> light_position"
    using assms(1) by (auto simp: inverted_analog_list_def light_position_def)
  ultimately show ?thesis using assms(1) by (simp add: analog_scaling_def)
qed

lemma analog_scaling_light:
  assumes "\<bar>c\<bar> \<le> 2048"
  shows "analog_scaling c light_position = c"
proof -
  have "(2 * c + 1) mod (2 * 1) \<noteq> 0" by (rule odd_no_tie) simp
  with assms have "py_round (float_add_int (int_mul_float c (int_truediv 100 100)) 0)
      = (2 * c + 1) div (2 * 1)"
    by (intro scaled_round) simp_all
  also have "\<dots> = c" by presburger
  finally show ?thesis by (simp add: analog_scaling_def)
qed

lemma light_no_tie:
  fixes n :: int
  assumes "- 498 \<le> n" "n \<le> 998" "n \<noteq> 499"
  shows "(2 * (75 * n) + 998) mod (2 * 998) \<noteq> 0"
proof
  assume "(2 * (75 * n) + 998) mod (2 * 998) = 0"
  then have "2 * 998 dvd 2 * (75 * n) + 998" by (simp add: dvd_eq_mod_eq_0)
  then obtain j where j: "2 * (75 * n) + 998 = 2 * 998 * j" by (auto simp: dvd_def)
  then have e: "75 * n = 499 * (2 * j - 1)" by simp
  then have "499 dvd 75 * n" by simp
  then have "499 dvd 173 * (75 * n)" by (rule dvd_mult)
  moreover have "(499::int) dvd 499 * (26 * n)" by simp
  ultimately have "499 dvd 173 * (75 * n) - 499 * (26 * n)" by (rule dvd_diff)
  moreover have "173 * (75 * n) - 499 * (26 * n) = n" by simp
  ultimately have "499 dvd n" by simp
  then obtain i where i: "n = 499 * i" by (auto simp: dvd_def)
  with assms have "i = 0 \<or> i = 2" by auto
  then show False using e i by auto presburger+
qed

lemma light_curve:
  assumes "25 \<le> r" "r \<le> 1151"
  shows "py_round (int_mul_float (1023 - r) (int_truediv 75 998)) = (150 * (1023 - r) + 998) div 1996"
proof (cases "r = 524")
  case True
  show ?thesis unfolding True by code_simp
next
  case False
  with assms have "(2 * (75 * (1023 - r)) + 998) mod (2 * 998) \<noteq> 0"
    by (intro light_no_tie) simp_all
  with assms have "py_round (int_mul_float (1023 - r) (int_truediv 75 998))
      = (2 * (75 * (1023 - r)) + 998) div (2 * 998)"
    by (intro mul_round) simp_all
  then show ?thesis by simp
qed

lemma light_exact:
  assumes "25 \<le> r" "r \<le> 1151"
  shows "round_half_even (of_int (1023 - r) * 75 / 998) = (150 * (1023 - r) + 998) div 1996"
proof (cases "r = 524")
  case True
  show ?thesis unfolding True by code_simp
next
  case False
  have "round_half_even (of_int (1023 - r) * 75 / 998)
      = round_half_even (of_int (75 * (1023 - r)) / of_int 998)"
    by (rule arg_cong[where f = round_half_even]) simp
  also have "\<dots> = (2 * (75 * (1023 - r)) + 998) div (2 * 998)"
    using assms False by (intro exact_round light_no_tie) simp_all
  also have "\<dots> = (150 * (1023 - r) + 998) div 1996" by simp
  finally show ?thesis .
qed

lemma light_curve_range:
  fixes r :: int
  assumes "25 \<le> r" "r \<le> 1151"
  shows "- 10 \<le> (150 * (1023 - r) + 998) div 1996 \<and> (150 * (1023 - r) + 998) div 1996 \<le> 75"
proof -
  have "(150 * (1023 - 1151) + 998) div 1996 \<le> (150 * (1023 - r) + 998) div 1996"
    using assms(2) by (intro zdiv_mono1) simp_all
  moreover have "(150 * (1023 - r) + 998) div 1996 \<le> (150 * 998 + 998) div 1996"
    using assms(1) by (intro zdiv_mono1) simp_all
  ultimately show ?thesis by simp
qed

lemma light_value:
  assumes "0 \<le> r" "r \<le> 1151"
  shows "analog_scaling (if r < 25 then 100 - r
                         else py_round (int_mul_float (1023 - r) (int_truediv 75 998)))
           light_position
         = (if r < 25 then 100 - r else (150 * (1023 - r) + 998) div 1996)"
proof (cases "r < 25")
  case True
  with assms show ?thesis by (simp add: analog_scaling_light)
next
  case False
  then have r: "25 \<le> r" by simp
  from light_curve_range[OF r assms(2)]
  have "\<bar>(150 * (1023 - r) + 998) div 1996\<bar> \<le> 2048" by linarith
  then have "analog_scaling ((150 * (1023 - r) + 998) div 1996) light_position
      = (150 * (1023 - r) + 998) div 1996"
    by (rule analog_scaling_light)
  then show ?thesis
    using False by (simp only: if_False light_curve[OF r assms(2)])
qed

section \<open>One cycle of the polling loop\<close>

lemma range9: "[0..<9] = [0, 1, 2, 3, 4, 5, 6, 7, 8]"
  by (simp add: upt_rec)

lemma raw_sensor_value_18:
  assumes "length p = 18" "i \<le> 8"
  shows "raw_sensor_value p i = Inr (push_bit 7 (uint (p ! (2 * i)) AND 7) + uint (p ! (2 * i + 1)))"
  using assms by (simp add: raw_sensor_value_def byte_at_def)

lemma cook_analog:
  assumes "i \<in> set analog_sensor_list"
  shows "cook i r c = Some (analog_scaling r i)"
  using assms by (simp add: cook_def Let_def)

lemma cook_button: "cook button_position r c = Some (of_bool (r = 0))"
  by (simp add: cook_def Let_def button_position_def light_position_def sound_position_def
      analog_sensor_list_def)

lemma cook_light:
  "cook light_position r c =
     Some (analog_scaling (if r < 25 then 100 - r
                           else py_round (int_mul_float (1023 - r) (int_truediv 75 998)))
             light_position)"
  by (simp add: cook_def Let_def light_position_def analog_sensor_list_def)

lemma decode_entry_18:
  assumes "length p = 18" "0 < i" "i \<le> 8" "raw_sensor_value p i = Inr r"
  shows "decode_entry p i (c, rep) = Inr (Proceed, cook i r c, rep @ [cook i r c])"
  using assms by (simp add: decode_entry_def Let_def)

lemma loop_body_18:
  assumes "0 < i" "raw_sensor_value p i = Inr r"
  shows "loop_body p i (c, rep) = Inr (Proceed, cook i r c, rep @ [cook i r c])"
  using assms by (simp add: loop_body_def decode_entry_def Let_def)

lemma cook_positions:
  "cook (Suc 0) x c = Some (analog_scaling x (Suc 0))"
  "cook 2 x c = Some (analog_scaling x 2)"
  "cook 3 x c = Some (analog_scaling x 3)"
  "cook 4 x c = Some (of_bool (x = 0))"
  "cook 5 x c = Some (analog_scaling x 5)"
  "cook 6 x c = Some (analog_scaling (if x < 25 then 100 - x
                        else py_round (int_mul_float (1023 - x) (int_truediv 75 998))) 6)"
  "cook 7 x c = Some (analog_scaling x 7)"
  "cook 8 x c = Some (analog_scaling x 8)"
  using cook_button[of x c] cook_light[of x c]
  by (simp_all add: cook_analog analog_sensor_list_def button_position_def light_position_def)

lemma cook_indep:
  assumes "i \<in> {1..8}"
  shows "cook i x c = cook i x None"
proof -
  from assms have "i = Suc 0 \<or> i = 2 \<or> i = 3 \<or> i = 4 \<or> i = 5 \<or> i = 6 \<or> i = 7 \<or> i = 8"
    by auto
  then show ?thesis by (elim disjE) (simp_all only: cook_positions)
qed

lemma for_range_entries:
  assumes "\<forall>i\<in>set js. i \<in> {1..8} \<and> raw_sensor_value p i = Inr (r i)"
  shows "\<exists>c'. for_range p js (c, rep) = Inr (c', rep @ map (\<lambda>i. cook i (r i) None) js)"
  using assms
proof (induction js arbitrary: c rep)
  case Nil
  then show ?case by simp
next
  case (Cons i js)
  then have i: "0 < i" "i \<in> {1..8}" "raw_sensor_value p i = Inr (r i)" by auto
  from Cons.IH[of "cook i (r i) c" "rep @ [cook i (r i) c]"] Cons.prems
  obtain c' where "for_range p js (cook i (r i) c, rep @ [cook i (r i) c])
      = Inr (c', (rep @ [cook i (r i) c]) @ map (\<lambda>i. cook i (r i) None) js)"
    by auto
  then show ?case using i(1,3) cook_indep[OF i(2), of "r i" c]
    by (simp add: loop_body_def decode_entry_def Let_def)
qed

lemma first_entry:
  assumes "length p = 18"
  shows "loop_body p 0 (c, rep) =
    (if drop_bit 3 (uint (p ! 0) - 128) \<noteq> 15 \<and> drop_bit 3 (uint (p ! 0) - 128) \<noteq> 0
     then Inr (Proceed, c, rep)
     else if uint (p ! 1) \<noteq> 4 then Inr (Break, c, rep)
     else Inr (Proceed, Some (push_bit 7 (uint (p ! 0) AND 7) + uint (p ! 1)), rep))"
  using assms
  by (simp add: loop_body_def decode_entry_def raw_sensor_value_def byte_at_def Let_def cook_def
      analog_sensor_list_def)

lemma run_cycle_break:
  assumes "length p = 18"
    and "drop_bit 3 (uint (p ! 0) - 128) = 15 \<or> drop_bit 3 (uint (p ! 0) - 128) = 0"
    and "uint (p ! 1) \<noteq> 4"
  shows "run_cycle p g =
    Inr (g\<lparr>published := published g @ [(payload g, publisher_topic g)],
           payload := [], polls := Suc (polls g)\<rparr>)"
proof -
  have "loop_body p 0 (None, payload g) = Inr (Break, None, payload g)"
    using assms by (auto simp: first_entry)
  then show ?thesis by (simp add: run_cycle_def upt_rec[of 0 9])
qed

lemma run_cycle_decoded:
  fixes p :: packet
  defines "r \<equiv> \<lambda>i. push_bit 7 (uint (p ! (2 * i)) AND 7) + uint (p ! (2 * i + 1))"
  assumes len: "length p = 18"
    and e0: "(drop_bit 3 (uint (p ! 0) - 128) \<noteq> 15 \<and> drop_bit 3 (uint (p ! 0) - 128) \<noteq> 0)
             \<or> uint (p ! 1) = 4"
  shows "run_cycle p g =
    Inr (g\<lparr>published := published g @
             [(payload g @ map (\<lambda>i. cook i (r i) None) [1..<9], publisher_topic g)],
           payload := [], polls := Suc (polls g)\<rparr>)"
proof -
  have raw: "\<forall>i\<in>set [1..<9]. i \<in> {1..8} \<and> raw_sensor_value p i = Inr (r i)"
    using len by (auto simp: r_def raw_sensor_value_18)
  have tl: "[0..<9] = 0 # [1..<9]" by (simp add: upt_rec)
  have "\<exists>c. loop_body p 0 (None, payload g) = Inr (Proceed, c, payload g)"
    using e0 by (auto simp: first_entry[OF len])
  then obtain c where "loop_body p 0 (None, payload g) = Inr (Proceed, c, payload g)" ..
  moreover from for_range_entries[OF raw, of c "payload g"]
  obtain c' where "for_range p [1..<9] (c, payload g)
      = Inr (c', payload g @ map (\<lambda>i. cook i (r i) None) [1..<9])" by auto
  ultimately show ?thesis by (simp add: run_cycle_def tl)
qed

lemma readings:
  "map (\<lambda>i. cook i (r i) None) [1..<9] =
     [Some (analog_scaling (r 1) 1), Some (analog_scaling (r 2) 2),
      Some (analog_scaling (r 3) 3), Some (of_bool (r 4 = 0)),
      Some (analog_scaling (r 5) 5),
      Some (analog_scaling (if r 6 < 25 then 100 - r 6
                 else py_round (int_mul_float (1023 - r 6) (int_truediv 75 998))) 6),
      Some (analog_scaling (r 7) 7), Some (analog_scaling (r 8) 8)]"
proof -
  have "[1..<9] = [Suc 0, 2, 3, 4, 5, 6, 7, 8]" by (simp add: upt_rec)
  then show ?thesis by (simp only: list.map cook_positions One_nat_def)
qed

lemma raw_sensor_value_bounds:
  assumes "raw_sensor_value p i = Inr r"
  shows "0 \<le> r \<and> r \<le> 1151"
proof -
  from assms obtain hi lo :: "8 word" where r: "r = push_bit 7 (uint hi AND 7) + uint lo"
    by (auto simp: raw_sensor_value_def byte_at_def split: if_splits)
  have "0 \<le> uint hi AND 7" "uint hi AND 7 \<le> 7" by (simp_all add: AND_upper2)
  then have "0 \<le> push_bit 7 (uint hi AND 7)" "push_bit 7 (uint hi AND 7) \<le> 896"
    by (simp_all add: push_bit_eq_mult)
  moreover have "0 \<le> uint lo" "uint lo \<le> 255"
    using uint_bounded[of lo] by simp_all
  ultimately show ?thesis unfolding r by linarith
qed

text \<open>What one cycle publishes for a packet that gets past the checks on entry 0, with the
  float arithmetic of the scaling carried out: every reading is an integer quotient.\<close>

lemma run_cycle_readings:
  fixes p :: packet
  defines "raw \<equiv> \<lambda>i. push_bit 7 (uint (p ! (2 * i)) AND 7) + uint (p ! (2 * i + 1))"
  assumes len: "length p = 18"
    and e0: "(drop_bit 3 (uint (p ! 0) - 128) \<noteq> 15 \<and> drop_bit 3 (uint (p ! 0) - 128) \<noteq> 0)
             \<or> uint (p ! 1) = 4"
  shows "run_cycle p g =
    Inr (g\<lparr>published := published g @
             [(payload g @
               [Some ((200 * (1023 - raw 1) + 1023) div 2046),
                Some ((200 * (1023 - raw 2) + 1023) div 2046),
                Some ((200 * (1023 - raw 3) + 1023) div 2046),
                Some (if raw 4 = 0 then 1 else 0),
                Some ((200 * (1023 - raw 5) + 1023) div 2046),
                Some (if raw 6 < 25 then 100 - raw 6 else (150 * (1023 - raw 6) + 998) div 1996),
                Some ((200 * raw 7 + 1023) div 2046),
                Some ((200 * raw 8 + 1023) div 2046)],
               publisher_topic g)],
           payload := [], polls := Suc (polls g)\<rparr>)"
proof -
  have b: "0 \<le> raw i \<and> raw i \<le> 1151" if "i \<le> 8" for i
    using raw_sensor_value_18[OF len that] unfolding raw_def by (rule raw_sensor_value_bounds)
  have inv: "analog_scaling (raw i) i = (200 * (1023 - raw i) + 1023) div 2046"
    if "i \<in> set inverted_analog_list" for i
  proof -
    from that have "i \<le> 8" by (auto simp: inverted_analog_list_def)
    from b[OF this] that show ?thesis by (intro analog_scaling_inverted) simp_all
  qed
  have pln: "analog_scaling (raw i) i = (200 * raw i + 1023) div 2046" if "i = 7 \<or> i = 8" for i
  proof -
    from that have "i \<le> 8" by auto
    from b[OF this] that show ?thesis
      by (intro analog_scaling_plain) (auto simp: light_position_def inverted_analog_list_def)
  qed
  have lt: "analog_scaling (if raw 6 < 25 then 100 - raw 6
              else py_round (int_mul_float (1023 - raw 6) (int_truediv 75 998))) 6
      = (if raw 6 < 25 then 100 - raw 6 else (150 * (1023 - raw 6) + 998) div 1996)"
    using light_value[of "raw 6"] b[of 6] by (simp only: light_position_def)
  have btn: "of_bool (raw 4 = 0) = (if raw 4 = 0 then 1 else (0::int))" by simp
  have i: "1 \<in> set inverted_analog_list" "2 \<in> set inverted_analog_list"
    "3 \<in> set inverted_analog_list" "5 \<in> set inverted_analog_list"
    by (simp_all add: inverted_analog_list_def)
  note vals = inv[OF i(1)] inv[OF i(2)] inv[OF i(3)] inv[OF i(4)] pln[of 7] pln[of 8] lt btn
  show ?thesis
    unfolding raw_def using run_cycle_decoded[OF len e0, of g]
    by (simp only: readings vals[unfolded raw_def] simp_thms)
qed

text \<open>The accumulator is empty whenever a cycle starts: the constructor leaves it empty and
  every cycle ends by replacing it.\<close>

lemma run_cycle_payload:
  assumes "run_cycle p g = Inr g'"
  shows "payload g' = []"
  using assms by (auto simp: run_cycle_def split: sum.splits prod.splits)

lemma cycles_payload:
  assumes "payload g = []" "cycles ps g = Inr g'"
  shows "payload g' = []"
  using assms
proof (induction ps arbitrary: g)
  case Nil
  then show ?case by simp
next
  case (Cons p ps)
  then obtain g1 where g1: "run_cycle p g = Inr g1" "cycles ps g1 = Inr g'"
    by (auto split: sum.splits)
  from run_cycle_payload[OF g1(1)] g1(2) show ?case by (rule Cons.IH)
qed

lemma run_payload:
  assumes "run ps (init_gateway topic) = Inr g'"
  shows "payload g' = []"
proof -
  have "payload ((init_gateway topic)\<lparr>polls := Suc (polls (init_gateway topic))\<rparr>) = []"
    by (simp add: init_gateway_def)
  then show ?thesis using assms unfolding run_def by (rule cycles_payload)
qed

section \<open>The loops of the sonar\<close>

lemma wait_for_echo_timeout:
  assumes "\<forall>k\<le>n. \<not> echo_polls w (i + k)" and "timed_out (clock w (j + n)) t3"
  shows "wait_for_echo w t3 (i, j) = Some (Inl (PyInt (- 1)))"
  using assms
proof (induction n arbitrary: i j)
  case 0
  then show ?case by (subst wait_for_echo.simps) simp
next
  case (Suc n)
  have low: "\<not> echo_polls w i" using Suc.prems(1)[rule_format, of 0] by simp
  have "\<forall>k\<le>n. \<not> echo_polls w (Suc i + k)"
    using Suc.prems(1) by (metis Suc_le_mono add_Suc_shift)
  moreover have "timed_out (clock w (Suc j + n)) t3" using Suc.prems(2) by simp
  ultimately have "wait_for_echo w t3 (Suc i, Suc j) = Some (Inl (PyInt (- 1)))"
    by (rule Suc.IH)
  then show ?case using low by (subst wait_for_echo.simps) simp
qed

lemma wait_for_echo_found:
  assumes "\<forall>k<n. \<not> echo_polls w (i + k) \<and> \<not> timed_out (clock w (j + k)) t3"
    and "echo_polls w (i + n)"
  shows "wait_for_echo w t3 (i, j) = Some (Inr (Suc (i + n), j + n))"
  using assms
proof (induction n arbitrary: i j)
  case 0
  then show ?case by (subst wait_for_echo.simps) simp
next
  case (Suc n)
  have now: "\<not> echo_polls w i" "\<not> timed_out (clock w j) t3"
    using Suc.prems(1)[rule_format, of 0] by simp_all
  have "\<forall>k<n. \<not> echo_polls w (Suc i + k) \<and> \<not> timed_out (clock w (Suc j + k)) t3"
    using Suc.prems(1) by (metis Suc_less_eq add_Suc_shift)
  moreover have "echo_polls w (Suc i + n)" using Suc.prems(2) by simp
  ultimately have "wait_for_echo w t3 (Suc i, Suc j) = Some (Inr (Suc (Suc i + n), Suc j + n))"
    by (rule Suc.IH)
  then show ?case using now by (subst wait_for_echo.simps) simp
qed

lemma wait_for_finish_timeout:
  assumes "\<forall>k\<le>n. echo_polls w (i + k)" and "timed_out (clock w (j + n)) t1"
  shows "wait_for_finish w t1 (i, j) = Some (Inl (PyInt (- 2)))"
  using assms
proof (induction n arbitrary: i j)
  case 0
  then show ?case by (subst wait_for_finish.simps) simp
next
  case (Suc n)
  have high: "echo_polls w i" using Suc.prems(1)[rule_format, of 0] by simp
  have "\<forall>k\<le>n. echo_polls w (Suc i + k)"
    using Suc.prems(1) by (metis Suc_le_mono add_Suc_shift)
  moreover have "timed_out (clock w (Suc j + n)) t1" using Suc.prems(2) by simp
  ultimately have "wait_for_finish w t1 (Suc i, Suc j) = Some (Inl (PyInt (- 2)))"
    by (rule Suc.IH)
  then show ?case using high by (subst wait_for_finish.simps) simp
qed

lemma wait_for_finish_found:
  assumes "\<forall>k<n. echo_polls w (i + k) \<and> \<not> timed_out (clock w (j + k)) t1"
    and "\<not> echo_polls w (i + n)"
  shows "wait_for_finish w t1 (i, j) = Some (Inr (Suc (i + n), j + n))"
  using assms
proof (induction n arbitrary: i j)
  case 0
  then show ?case by (subst wait_for_finish.simps) simp
next
  case (Suc n)
  have now: "echo_polls w i" "\<not> timed_out (clock w j) t1"
    using Suc.prems(1)[rule_format, of 0] by simp_all
  have "\<forall>k<n. echo_polls w (Suc i + k) \<and> \<not> timed_out (clock w (Suc j + k)) t1"
    using Suc.prems(1) by (metis Suc_less_eq add_Suc_shift)
  moreover have "\<not> echo_polls w (Suc i + n)" using Suc.prems(2) by simp
  ultimately have "wait_for_finish w t1 (Suc i, Suc j) = Some (Inr (Suc (Suc i + n), Suc j + n))"
    by (rule Suc.IH)
  then show ?case using now by (subst wait_for_finish.simps) simp
qed

lemma read_no_echo_start:
  assumes "\<forall>k\<le>n. \<not> echo_polls w k" and "timed_out (clock w (Suc n)) (clock w 0)"
  shows "read w = Some (PyInt (- 1))"
proof -
  have "wait_for_echo w (clock w 0) (0, 1) = Some (Inl (PyInt (- 1)))"
    using assms by (intro wait_for_echo_timeout[where n = n]) simp_all
  then show ?thesis by (simp add: read_def)
qed

lemma read_no_echo_end:
  assumes "\<forall>k<n. \<not> echo_polls w k \<and> \<not> timed_out (clock w (Suc k)) (clock w 0)"
    and "\<forall>k\<le>Suc m. echo_polls w (n + k)"
    and "timed_out (clock w (n + m + 2)) (clock w (Suc n))"
  shows "read w = Some (PyInt (- 2))"
proof -
  have "wait_for_echo w (clock w 0) (0, 1) = Some (Inr (Suc (0 + n), 1 + n))"
    using assms(1,2) by (intro wait_for_echo_found) (simp_all, metis add.right_neutral le0)
  moreover have "\<forall>k\<le>m. echo_polls w (Suc n + k)"
  proof (intro allI impI)
    fix k assume "k \<le> m"
    then have "echo_polls w (n + Suc k)" using assms(2) by (simp del: add_Suc_right)
    then show "echo_polls w (Suc n + k)" by simp
  qed
  then have "wait_for_finish w (clock w (Suc n)) (Suc n, Suc (Suc n)) = Some (Inl (PyInt (- 2)))"
    using assms(3) by (intro wait_for_finish_timeout[where n = m]) (simp_all add: add.commute)
  ultimately show ?thesis by (simp add: read_def)
qed

lemma read_distance:
  assumes "\<forall>k<n. \<not> echo_polls w k \<and> \<not> timed_out (clock w (Suc k)) (clock w 0)"
    and "echo_polls w n"
    and "\<forall>k<m. echo_polls w (Suc n + k) \<and> \<not> timed_out (clock w (n + k + 2)) (clock w (Suc n))"
    and "\<not> echo_polls w (Suc n + m)"
  shows "read w = Some (PyFloat (float_mul_int (float_div_int
           (float_mul_int (float_sub (clock w (n + m + 2)) (clock w (Suc n))) 340) 2) 100))"
proof -
  have "wait_for_echo w (clock w 0) (0, 1) = Some (Inr (Suc (0 + n), 1 + n))"
    using assms(1,2) by (intro wait_for_echo_found) simp_all
  moreover have "wait_for_finish w (clock w (Suc n)) (Suc n, Suc (Suc n))
      = Some (Inr (Suc (Suc n + m), Suc (Suc n) + m))"
    using assms(3,4) by (intro wait_for_finish_found) (simp_all add: add.commute)
  ultimately show ?thesis by (simp add: read_def add.commute)
qed

lemma fl_step:
  assumes "\<bar>x - X\<bar> \<le> c * (\<bar>X\<bar> * eps)" "0 \<le> c" "c \<le> 8"
  shows "\<bar>fl x - X\<bar> \<le> (c + 2) * (\<bar>X\<bar> * eps)"
proof -
  define K where "K = \<bar>X\<bar> * eps"
  have K0: "0 \<le> K" by (simp add: K_def eps_def)
  have "c * K \<le> 8 * K" using assms(3) K0 by (rule mult_right_mono)
  with assms(1) have "\<bar>x\<bar> \<le> \<bar>X\<bar> + 8 * K" unfolding K_def by linarith
  then have "\<bar>x\<bar> * eps \<le> (\<bar>X\<bar> + 8 * K) * eps"
    by (intro mult_right_mono) (auto simp: eps_def)
  also have "\<dots> = K + K * (8 * eps)" by (simp add: K_def algebra_simps)
  also have "\<dots> \<le> K + K * 1"
    using K0 by (intro add_left_mono mult_left_mono) (auto simp: eps_def)
  finally have "\<bar>x\<bar> * eps \<le> 2 * K" by simp
  with fl_close[of x] have "\<bar>fl x - x\<bar> \<le> 2 * K" by linarith
  with assms(1) show ?thesis unfolding K_def by (simp add: algebra_simps)
qed

lemma scale_err:
  fixes x X m c :: rat
  assumes "\<bar>x - X\<bar> \<le> c * (\<bar>X\<bar> * eps)"
  shows "\<bar>x * m - X * m\<bar> \<le> c * (\<bar>X * m\<bar> * eps)"
proof -
  have "\<bar>x * m - X * m\<bar> = \<bar>x - X\<bar> * \<bar>m\<bar>"
    by (simp only: abs_mult left_diff_distrib[symmetric])
  also have "\<dots> \<le> (c * (\<bar>X\<bar> * eps)) * \<bar>m\<bar>"
    using assms by (rule mult_right_mono) simp
  also have "\<dots> = c * (\<bar>X * m\<bar> * eps)" by (simp only: abs_mult ac_simps)
  finally show ?thesis .
qed

lemma distance_close:
  fixes t1 t2 :: rat
  shows "\<bar>float_mul_int (float_div_int (float_mul_int (float_sub t2 t1) 340) 2) 100
            - (t2 - t1) * 17000\<bar>
          \<le> \<bar>(t2 - t1) * 17000\<bar> / 2 ^ 50"
proof -
  define d where "d = t2 - t1"
  define x1 where "x1 = fl d"
  define x2 where "x2 = fl (x1 * 340)"
  define x3 where "x3 = fl (x2 * (1 / 2))"
  define x4 where "x4 = fl (x3 * 100)"
  have "\<bar>d - d\<bar> \<le> 0 * (\<bar>d\<bar> * eps)" by simp
  then have "\<bar>x1 - d\<bar> \<le> (0 + 2) * (\<bar>d\<bar> * eps)"
    unfolding x1_def by (rule fl_step) simp_all
  then have "\<bar>x1 - d\<bar> \<le> 2 * (\<bar>d\<bar> * eps)" by simp
  then have "\<bar>x1 * 340 - d * 340\<bar> \<le> 2 * (\<bar>d * 340\<bar> * eps)" by (rule scale_err)
  then have "\<bar>x2 - d * 340\<bar> \<le> (2 + 2) * (\<bar>d * 340\<bar> * eps)"
    unfolding x2_def by (rule fl_step) simp_all
  then have "\<bar>x2 - d * 340\<bar> \<le> 4 * (\<bar>d * 340\<bar> * eps)" by simp
  then have "\<bar>x2 * (1 / 2) - d * 340 * (1 / 2)\<bar> \<le> 4 * (\<bar>d * 340 * (1 / 2)\<bar> * eps)"
    by (rule scale_err)
  then have "\<bar>x3 - d * 340 * (1 / 2)\<bar> \<le> (4 + 2) * (\<bar>d * 340 * (1 / 2)\<bar> * eps)"
    unfolding x3_def by (rule fl_step) simp_all
  then have "\<bar>x3 - d * 340 * (1 / 2)\<bar> \<le> 6 * (\<bar>d * 340 * (1 / 2)\<bar> * eps)" by simp
  then have "\<bar>x3 * 100 - d * 340 * (1 / 2) * 100\<bar> \<le> 6 * (\<bar>d * 340 * (1 / 2) * 100\<bar> * eps)"
    by (rule scale_err)
  then have "\<bar>x4 - d * 340 * (1 / 2) * 100\<bar> \<le> (6 + 2) * (\<bar>d * 340 * (1 / 2) * 100\<bar> * eps)"
    unfolding x4_def by (rule fl_step) simp_all
  moreover have "d * 340 * (1 / 2) * 100 = d * 17000" by simp
  ultimately have "\<bar>x4 - d * 17000\<bar> \<le> 8 * (\<bar>d * 17000\<bar> * eps)" by simp
  also have "\<dots> = \<bar>d * 17000\<bar> / 2 ^ 50" by (simp add: eps_def)
  finally have "\<bar>x4 - d * 17000\<bar> \<le> \<bar>d * 17000\<bar> / 2 ^ 50" .
  moreover have "float_mul_int (float_div_int (float_mul_int (float_sub t2 t1) 340) 2) 100 = x4"
    by (simp add: x4_def x3_def x2_def x1_def d_def float_mul_int_def float_div_int_def
        float_sub_def)
  ultimately show ?thesis unfolding d_def by simp
qed

lemma plain_range:
  fixes r :: int
  assumes "0 \<le> r" "r \<le> 1023"
  shows "0 \<le> (200 * r + 1023) div 2046 \<and> (200 * r + 1023) div 2046 \<le> 100"
proof -
  have "(200 * 0 + 1023) div 2046 \<le> (200 * r + 1023) div 2046"
    using assms(1) by (intro zdiv_mono1) simp_all
  moreover have "(200 * r + 1023) div 2046 \<le> (200 * 1023 + 1023) div 2046"
    using assms(2) by (intro zdiv_mono1) simp_all
  ultimately show ?thesis by simp
qed

lemma light_range:
  fixes r :: int
  assumes "0 \<le> r" "r \<le> 1023"
  shows "0 \<le> (if r < 25 then 100 - r else (150 * (1023 - r) + 998) div 1996)
       \<and> (if r < 25 then 100 - r else (150 * (1023 - r) + 998) div 1996) \<le> 100"
proof (cases "r < 25")
  case True
  with assms show ?thesis by simp
next
  case False
  have "(150 * 0 + 998) div 1996 \<le> (150 * (1023 - r) + 998) div 1996"
    using assms(2) by (intro zdiv_mono1) simp_all
  moreover have "(150 * (1023 - r) + 998) div 1996 \<le> (150 * 998 + 998) div 1996"
    using False by (intro zdiv_mono1) simp_all
  ultimately show ?thesis using False by simp
qed

lemma hundredth_of_a_second:
  "float_mul_int (float_div_int (float_mul_int (fl (1 / 100)) 340) 2) 100 = 170"
  by code_simp

section \<open>The claims\<close>

subsection \<open>The gateway\<close>

text \<open>
  C1. The claim is that the sound channel is published through the sound curve and that no
  generic scaling follows. The loop body does compute the curve for position 7, but 7 is
  still a member of \<^verbatim>\<open>analog_sensor_list\<close>, so the next statement overwrites the value with
  \<^verbatim>\<open>analog_scaling\<close>: a raw sound value of 18 is published as 2 and one of 68 as 7, where
  the curve gives 0 and 25.
\<close>

theorem sound_published_by_generic_scaling:
  "cook sound_position 18 None = Some 2 \<and> cook sound_position 68 None = Some 7
   \<and> run_cycle [248, 4, 128, 0, 136, 0, 144, 0, 152, 0, 160, 0, 168, 0, 176, 18, 184, 0]
        (init_gateway ''from_picoboard_gateway'') =
        Inr \<lparr>publisher_topic = ''from_picoboard_gateway'', payload = [],
              published = [([Some 100, Some 100, Some 100, Some 1, Some 100, Some 100,
                             Some 2, Some 0], ''from_picoboard_gateway'')],
              polls = 1\<rparr>
   \<and> run_cycle [248, 4, 128, 0, 136, 0, 144, 0, 152, 0, 160, 0, 168, 0, 176, 68, 184, 0]
        (init_gateway ''from_picoboard_gateway'') =
        Inr \<lparr>publisher_topic = ''from_picoboard_gateway'', payload = [],
              published = [([Some 100, Some 100, Some 100, Some 1, Some 100, Some 100,
                             Some 7, Some 0], ''from_picoboard_gateway'')],
              polls = 1\<rparr>"
proof -
  let ?p = "[248, 4, 128, 0, 136, 0, 144, 0, 152, 0, 160, 0, 168, 0, 176, 18, 184, 0] :: 8 word list"
  let ?q = "[248, 4, 128, 0, 136, 0, 144, 0, 152, 0, 160, 0, 168, 0, 176, 68, 184, 0] :: 8 word list"
  have len: "length ?p = 18" "length ?q = 18" by simp_all
  have e0: "(drop_bit 3 (uint (?p ! 0) - 128) \<noteq> 15 \<and> drop_bit 3 (uint (?p ! 0) - 128) \<noteq> 0)
             \<or> uint (?p ! 1) = 4"
    "(drop_bit 3 (uint (?q ! 0) - 128) \<noteq> 15 \<and> drop_bit 3 (uint (?q ! 0) - 128) \<noteq> 0)
             \<or> uint (?q ! 1) = 4" by simp_all
  have "cook sound_position x None = Some ((200 * x + 1023) div 2046)" if "\<bar>x\<bar> \<le> 2048" for x
    using that
    by (simp add: sound_position_def cook_positions analog_scaling_plain light_position_def
        inverted_analog_list_def)
  then have "cook sound_position 18 None = Some 2" "cook sound_position 68 None = Some 7"
    by simp_all
  then show ?thesis
    by (simp add: run_cycle_readings[OF len(1) e0(1)] run_cycle_readings[OF len(2) e0(2)]
        init_gateway_def)
qed

text \<open>
  C2. The claim is that a packet whose entry 0 fails the checks is dropped and nothing is
  published for that cycle. The check on the channel id does not do that: inside
  \<^verbatim>\<open>for i in range(9)\<close> its \<^verbatim>\<open>continue\<close> only goes on to entry 1, so the id value is never
  looked at and the packet is decoded and published like a good one. A packet whose entry 0
  has channel id 7 is published with all 8 readings.
\<close>

theorem failed_validation_still_publishes:
  "drop_bit 3 (uint (184 :: 8 word) - 128) = (7 :: int)
   \<and> run_cycle [184, 4, 128, 0, 136, 0, 144, 0, 152, 0, 160, 0, 168, 0, 176, 18, 184, 0]
        (init_gateway ''from_picoboard_gateway'') =
        Inr \<lparr>publisher_topic = ''from_picoboard_gateway'', payload = [],
              published = [([Some 100, Some 100, Some 100, Some 1, Some 100, Some 100,
                             Some 2, Some 0], ''from_picoboard_gateway'')],
              polls = 1\<rparr>
   \<and> run_cycle [184, 9, 128, 0, 136, 0, 144, 0, 152, 0, 160, 0, 168, 0, 176, 18, 184, 0]
        (init_gateway ''from_picoboard_gateway'') =
        Inr \<lparr>publisher_topic = ''from_picoboard_gateway'', payload = [],
              published = [([Some 100, Some 100, Some 100, Some 1, Some 100, Some 100,
                             Some 2, Some 0], ''from_picoboard_gateway'')],
              polls = 1\<rparr>"
proof -
  let ?p = "[184, 4, 128, 0, 136, 0, 144, 0, 152, 0, 160, 0, 168, 0, 176, 18, 184, 0] :: 8 word list"
  let ?q = "[184, 9, 128, 0, 136, 0, 144, 0, 152, 0, 160, 0, 168, 0, 176, 18, 184, 0] :: 8 word list"
  have len: "length ?p = 18" "length ?q = 18" by simp_all
  have e0: "(drop_bit 3 (uint (?p ! 0) - 128) \<noteq> 15 \<and> drop_bit 3 (uint (?p ! 0) - 128) \<noteq> 0)
             \<or> uint (?p ! 1) = 4"
    "(drop_bit 3 (uint (?q ! 0) - 128) \<noteq> 15 \<and> drop_bit 3 (uint (?q ! 0) - 128) \<noteq> 0)
             \<or> uint (?q ! 1) = 4" by simp_all
  show ?thesis
    by (simp add: run_cycle_readings[OF len(1) e0(1)] run_cycle_readings[OF len(2) e0(2)]
        init_gateway_def)
qed

text \<open>
  C3. For a packet that passes the checks on entry 0 and whose light entry carries the raw
  value \<open>r \<le> 1023\<close>, the sixth published reading is \<open>100 - r\<close> when \<open>r < 25\<close> and otherwise
  \<open>(1023 - r) * 75 / 998\<close> rounded to the nearest integer. Raw values 0, 24, 25 and 1023 give
  100, 76, 75 and 0.
\<close>

theorem light_published:
  assumes len: "length p = 18"
    and ch: "drop_bit 3 (uint (p ! 0) - 128) = 15 \<or> drop_bit 3 (uint (p ! 0) - 128) = 0"
    and idv: "uint (p ! 1) = 4"
    and raw: "raw_sensor_value p light_position = Inr r"
    and r: "r \<le> 1023"
    and acc: "payload g = []"
  shows "(\<exists>D C B btn A snd sl.
          run_cycle p g =
            Inr (g\<lparr>published := published g @
                     [([D, C, B, btn, A,
                        Some (if r < 25 then 100 - r
                              else round_half_even (of_int (1023 - r) * 75 / 998)),
                        snd, sl], publisher_topic g)],
                   payload := [], polls := Suc (polls g)\<rparr>))
       \<and> cook light_position 0 None = Some 100 \<and> cook light_position 24 None = Some 76
       \<and> cook light_position 25 None = Some 75 \<and> cook light_position 1023 None = Some 0"
proof -
  have r0: "0 \<le> r" using raw_sensor_value_bounds[OF raw] by simp
  have "raw_sensor_value p 6 = Inr (push_bit 7 (uint (p ! (2 * 6)) AND 7) + uint (p ! (2 * 6 + 1)))"
    using len by (intro raw_sensor_value_18) simp_all
  with raw have req: "push_bit 7 (uint (p ! (2 * 6)) AND 7) + uint (p ! (2 * 6 + 1)) = r"
    by (simp add: light_position_def)
  have e0: "(drop_bit 3 (uint (p ! 0) - 128) \<noteq> 15 \<and> drop_bit 3 (uint (p ! 0) - 128) \<noteq> 0)
             \<or> uint (p ! 1) = 4" using idv by simp
  have lv: "(if r < 25 then 100 - r else (150 * (1023 - r) + 998) div 1996)
      = (if r < 25 then 100 - r else round_half_even (of_int (1023 - r) * 75 / 998))"
  proof (cases "r < 25")
    case True
    then show ?thesis by simp
  next
    case False
    then have "25 \<le> r" "r \<le> 1151" using r by simp_all
    from light_exact[OF this] False show ?thesis by (simp only: if_False)
  qed
  have "\<exists>D C B btn A snd sl.
          run_cycle p g =
            Inr (g\<lparr>published := published g @
                     [([D, C, B, btn, A,
                        Some (if r < 25 then 100 - r
                              else round_half_even (of_int (1023 - r) * 75 / 998)),
                        snd, sl], publisher_topic g)],
                   payload := [], polls := Suc (polls g)\<rparr>)"
    unfolding run_cycle_readings[OF len e0] req lv acc by (intro exI) simp
  moreover have c: "cook light_position x None
      = Some (if x < 25 then 100 - x else (150 * (1023 - x) + 998) div 1996)"
    if "0 \<le> x" "x \<le> 1151" for x
    using light_value[OF that] by (simp only: cook_light)
  have "cook light_position 0 None = Some 100" "cook light_position 24 None = Some 76"
    "cook light_position 25 None = Some 75" "cook light_position 1023 None = Some 0"
    by (simp_all add: c)
  ultimately show ?thesis by simp
qed

text \<open>
  The theorem at a packet whose light entry is 396.
\<close>

theorem light_published_witness:
  "length [248, 4, 128, 0, 136, 0, 144, 0, 152, 0, 160, 0, 171, 12, 176, 18, 184, 0 :: 8 word] = 18
   \<and> raw_sensor_value [248, 4, 128, 0, 136, 0, 144, 0, 152, 0, 160, 0, 171, 12, 176, 18, 184, 0]
        light_position = Inr 396
   \<and> (\<exists>D C B btn A snd sl.
        run_cycle [248, 4, 128, 0, 136, 0, 144, 0, 152, 0, 160, 0, 171, 12, 176, 18, 184, 0]
          (init_gateway ''from_picoboard_gateway'') =
          Inr \<lparr>publisher_topic = ''from_picoboard_gateway'', payload = [],
                published = [([D, C, B, btn, A, Some 47, snd, sl], ''from_picoboard_gateway'')],
                polls = 1\<rparr>)"
proof -
  let ?p = "[248, 4, 128, 0, 136, 0, 144, 0, 152, 0, 160, 0, 171, 12, 176, 18, 184, 0] :: 8 word list"
  let ?g = "init_gateway ''from_picoboard_gateway''"
  have len: "length ?p = 18" by simp
  have ch: "drop_bit 3 (uint (?p ! 0) - 128) = 15 \<or> drop_bit 3 (uint (?p ! 0) - 128) = 0"
    by simp
  have idv: "uint (?p ! 1) = 4" by simp
  have raw: "raw_sensor_value ?p light_position = Inr 396"
    by (simp add: raw_sensor_value_def byte_at_def light_position_def)
  have acc: "payload ?g = []" by (simp add: init_gateway_def)
  have v: "(if (396::int) < 25 then 100 - 396
            else round_half_even (of_int (1023 - 396) * 75 / 998)) = 47"
    by code_simp
  from light_published[OF len ch idv raw _ acc] len raw show ?thesis
    unfolding v by (simp add: init_gateway_def)
qed

text \<open>
  C4. For every raw value \<open>r\<close> in \<open>[0, 1023]\<close> on a channel that is neither the light channel
  nor one of the inverted channels (the slider at position 8 and the sound position 7),
  \<^verbatim>\<open>analog_scaling\<close> returns \<open>r * 100 / 1023\<close> rounded to the nearest integer, and the result
  does not decrease when \<open>r\<close> grows.
\<close>

theorem generic_scaling_rounds_and_is_monotone:
  assumes "index \<noteq> light_position" and "index \<notin> set inverted_analog_list"
    and "0 \<le> r" and "r \<le> r'" and "r' \<le> 1023"
  shows "analog_scaling r index = round_half_even (of_int r * 100 / 1023)
       \<and> analog_scaling r index \<le> analog_scaling r' index"
proof -
  have "round_half_even (of_int r * 100 / 1023)
      = round_half_even (of_int (100 * r) / of_int 1023)"
    by (rule arg_cong[where f = round_half_even]) simp
  also have "\<dots> = (2 * (100 * r) + 1023) div (2 * 1023)"
    by (intro exact_round odd_no_tie) simp_all
  also have "\<dots> = (200 * r + 1023) div 2046" by simp
  finally have exact: "round_half_even (of_int r * 100 / 1023) = (200 * r + 1023) div 2046" .
  have r: "analog_scaling r index = (200 * r + 1023) div 2046"
    using assms by (intro analog_scaling_plain) simp_all
  have r': "analog_scaling r' index = (200 * r' + 1023) div 2046"
    using assms by (intro analog_scaling_plain) simp_all
  have "(200 * r + 1023) div 2046 \<le> (200 * r' + 1023) div 2046"
    using assms(4) by (intro zdiv_mono1) simp_all
  with exact r r' show ?thesis by simp
qed

text \<open>
  The theorem at the slider position, for the raw values 511 and 1023.
\<close>

theorem generic_scaling_witness:
  "8 \<noteq> light_position \<and> 8 \<notin> set inverted_analog_list \<and> (0::int) \<le> 511 \<and> (511::int) \<le> 1023
   \<and> analog_scaling 511 8 = round_half_even (of_int 511 * 100 / 1023)
   \<and> analog_scaling 511 8 = 50 \<and> analog_scaling 1023 8 = 100
   \<and> analog_scaling 511 8 \<le> analog_scaling 1023 8"
proof -
  have h: "8 \<noteq> light_position" "8 \<notin> set inverted_analog_list"
    by (simp_all add: light_position_def inverted_analog_list_def)
  have v: "analog_scaling 511 8 = 50" "analog_scaling 1023 8 = 100"
    by (simp_all add: analog_scaling_plain[OF h])
  from generic_scaling_rounds_and_is_monotone[OF h, of 511 1023] h v show ?thesis by simp
qed

text \<open>
  C5. For every raw value \<open>r\<close> in \<open>[0, 1023]\<close> on an inverted channel (positions 1, 2, 3 and 5,
  that is D, C, B and A), \<^verbatim>\<open>analog_scaling\<close> returns
  \<open>(r - 1023) * (100 / (0 - 1023)) + 0\<close> rounded to the nearest integer; the result does not
  increase when \<open>r\<close> grows, it is 100 at \<open>r = 0\<close> and 0 at \<open>r = 1023\<close>.
\<close>

theorem inverted_scaling_rounds_and_is_antitone:
  assumes "index \<in> set inverted_analog_list"
    and "0 \<le> r" and "r \<le> r'" and "r' \<le> 1023"
  shows "analog_scaling r index = round_half_even (of_int (r - 1023) * (100 / (0 - 1023)) + 0)
       \<and> analog_scaling r' index \<le> analog_scaling r index
       \<and> analog_scaling 0 index = 100 \<and> analog_scaling 1023 index = 0"
proof -
  have "round_half_even (of_int (r - 1023) * (100 / (0 - 1023)) + 0)
      = round_half_even (of_int (100 * (1023 - r)) / of_int 1023)"
    by (rule arg_cong[where f = round_half_even]) (simp add: field_simps)
  also have "\<dots> = (2 * (100 * (1023 - r)) + 1023) div (2 * 1023)"
    by (intro exact_round odd_no_tie) simp_all
  also have "\<dots> = (200 * (1023 - r) + 1023) div 2046" by simp
  finally have exact: "round_half_even (of_int (r - 1023) * (100 / (0 - 1023)) + 0)
      = (200 * (1023 - r) + 1023) div 2046" .
  have v: "analog_scaling x index = (200 * (1023 - x) + 1023) div 2046" if "0 \<le> x" "x \<le> 1023" for x
    using assms(1) that by (intro analog_scaling_inverted) simp_all
  have "(200 * (1023 - r') + 1023) div 2046 \<le> (200 * (1023 - r) + 1023) div 2046"
    using assms(3) by (intro zdiv_mono1) simp_all
  moreover have "analog_scaling 0 index = 100" "analog_scaling 1023 index = 0"
    by (simp_all add: v)
  ultimately show ?thesis using exact v[of r] v[of r'] assms by simp
qed

text \<open>
  The theorem at position 5, for the raw values 100 and 900.
\<close>

theorem inverted_scaling_witness:
  "5 \<in> set inverted_analog_list \<and> (0::int) \<le> 100 \<and> (100::int) \<le> 900 \<and> (900::int) \<le> 1023
   \<and> analog_scaling 100 5 = 90 \<and> analog_scaling 900 5 = 12
   \<and> analog_scaling 900 5 \<le> analog_scaling 100 5
   \<and> analog_scaling 0 5 = 100 \<and> analog_scaling 1023 5 = 0"
proof -
  have h: "5 \<in> set inverted_analog_list" by (simp add: inverted_analog_list_def)
  have v: "analog_scaling 100 5 = 90" "analog_scaling 900 5 = 12"
    by (simp_all add: analog_scaling_inverted[OF h])
  from inverted_scaling_rounds_and_is_antitone[OF h, of 100 900] h v show ?thesis by simp
qed

text \<open>
  C6, as the code has it. For every packet of 18 bytes that passes the checks on entry 0 and
  whose entries 1 to 8 all carry a raw value of at most 1023, one cycle publishes a vector of
  exactly 8 integers, each in \<open>[0, 100]\<close>; the reading at index \<open>i - 1\<close> is the cooked value of
  entry \<open>i\<close> (D, C, B, button, A, light, sound, slider), and the raw value of entry \<open>i\<close> is
  \<open>((p[2i] & 7) << 7) + p[2i + 1]\<close>.
\<close>

theorem decode_in_range:
  fixes p :: packet
  defines "raw \<equiv> \<lambda>i. push_bit 7 (uint (p ! (2 * i)) AND 7) + uint (p ! (2 * i + 1))"
  assumes len: "length p = 18"
    and ch: "drop_bit 3 (uint (p ! 0) - 128) = 0 \<or> drop_bit 3 (uint (p ! 0) - 128) = 15"
    and idv: "uint (p ! 1) = 4"
    and rng: "\<forall>i\<in>{1..8}. raw i \<le> 1023"
    and acc: "payload g = []"
  shows "\<exists>v. run_cycle p g =
               Inr (g\<lparr>published := published g @ [(map Some v, publisher_topic g)],
                      payload := [], polls := Suc (polls g)\<rparr>)
           \<and> length v = 8
           \<and> (\<forall>x\<in>set v. 0 \<le> x \<and> x \<le> 100)
           \<and> (\<forall>i\<in>{1..8}. raw_sensor_value p i = Inr (raw i)
                            \<and> cook i (raw i) None = Some (v ! (i - 1)))"
proof -
  define v where "v = [(200 * (1023 - raw 1) + 1023) div 2046,
      (200 * (1023 - raw 2) + 1023) div 2046, (200 * (1023 - raw 3) + 1023) div 2046,
      if raw 4 = 0 then 1 else 0, (200 * (1023 - raw 5) + 1023) div 2046,
      if raw 6 < 25 then 100 - raw 6 else (150 * (1023 - raw 6) + 998) div 1996,
      (200 * raw 7 + 1023) div 2046, (200 * raw 8 + 1023) div 2046]"
  have e0: "(drop_bit 3 (uint (p ! 0) - 128) \<noteq> 15 \<and> drop_bit 3 (uint (p ! 0) - 128) \<noteq> 0)
             \<or> uint (p ! 1) = 4" using idv by simp
  have rv: "raw_sensor_value p i = Inr (raw i)" if "i \<in> {1..8}" for i
    using that len unfolding raw_def by (intro raw_sensor_value_18) simp_all
  have lo: "0 \<le> raw i" if "i \<in> {1..8}" for i
    using raw_sensor_value_bounds[OF rv[OF that]] by simp
  have hi: "raw i \<le> 1023" if "i \<in> {1..8}" for i using rng that by blast
  have inv: "0 \<le> (200 * (1023 - raw i) + 1023) div 2046
      \<and> (200 * (1023 - raw i) + 1023) div 2046 \<le> 100" if "i \<in> {1..8}" for i
    using lo[OF that] hi[OF that] by (intro plain_range) simp_all
  have pln: "0 \<le> (200 * raw i + 1023) div 2046 \<and> (200 * raw i + 1023) div 2046 \<le> 100"
    if "i \<in> {1..8}" for i
    using lo[OF that] hi[OF that] by (rule plain_range)
  have lt: "0 \<le> (if raw 6 < 25 then 100 - raw 6 else (150 * (1023 - raw 6) + 998) div 1996)
    \<and> (if raw 6 < 25 then 100 - raw 6 else (150 * (1023 - raw 6) + 998) div 1996) \<le> 100"
    using lo[of 6] hi[of 6] by (intro light_range) simp_all
  have run: "run_cycle p g =
      Inr (g\<lparr>published := published g @ [(map Some v, publisher_topic g)],
             payload := [], polls := Suc (polls g)\<rparr>)"
    unfolding run_cycle_readings[OF len e0] acc v_def raw_def by simp
  have rngv: "\<forall>x\<in>set v. 0 \<le> x \<and> x \<le> 100"
    unfolding v_def using inv[of 1] inv[of 2] inv[of 3] inv[of 5] pln[of 7] pln[of 8] lt
    by simp
  have ck: "cook i (raw i) None = Some (v ! (i - 1))" if "i \<in> {1..8}" for i
  proof -
    have b: "0 \<le> raw i \<and> raw i \<le> 1151" using lo[OF that] hi[OF that] by simp
    from that have "i = Suc 0 \<or> i = 2 \<or> i = 3 \<or> i = 4 \<or> i = 5 \<or> i = 6 \<or> i = 7 \<or> i = 8"
      by auto
    then show ?thesis
    proof (elim disjE)
      assume i: "i = 6"
      show ?thesis
        using light_value[of "raw 6"] b unfolding i
        by (simp add: cook_positions v_def light_position_def)
    qed (use b in \<open>simp_all add: cook_positions v_def analog_scaling_inverted analog_scaling_plain
          inverted_analog_list_def light_position_def\<close>)
  qed
  have "length v = 8" by (simp add: v_def)
  with run rngv rv ck show ?thesis unfolding raw_def by blast
qed

text \<open>
  The theorem at a packet with raw values 0, 0, 0, 1, 0, 396, 18 and 1023.
\<close>

theorem decode_in_range_witness:
  "length [248, 4, 128, 0, 136, 0, 144, 0, 152, 1, 160, 0, 171, 12, 176, 18, 191, 127 :: 8 word] = 18
   \<and> (\<exists>v. run_cycle [248, 4, 128, 0, 136, 0, 144, 0, 152, 1, 160, 0, 171, 12, 176, 18, 191, 127]
             (init_gateway ''from_picoboard_gateway'') =
             Inr \<lparr>publisher_topic = ''from_picoboard_gateway'', payload = [],
                   published = [(map Some v, ''from_picoboard_gateway'')], polls = 1\<rparr>
          \<and> length v = 8 \<and> (\<forall>x\<in>set v. 0 \<le> x \<and> x \<le> 100))"
proof -
  let ?p = "[248, 4, 128, 0, 136, 0, 144, 0, 152, 1, 160, 0, 171, 12, 176, 18, 191, 127] :: 8 word list"
  let ?g = "init_gateway ''from_picoboard_gateway''"
  have len: "length ?p = 18" by simp
  have ch: "drop_bit 3 (uint (?p ! 0) - 128) = 0 \<or> drop_bit 3 (uint (?p ! 0) - 128) = 15"
    by simp
  have idv: "uint (?p ! 1) = 4" by simp
  have "push_bit 7 (uint (?p ! (2 * i)) AND 7) + uint (?p ! (2 * i + 1)) \<le> 1023"
    if "i \<in> {1..8}" for i
  proof -
    from that have "i = 1 \<or> i = 2 \<or> i = 3 \<or> i = 4 \<or> i = 5 \<or> i = 6 \<or> i = 7 \<or> i = 8"
      by auto
    then show ?thesis by (elim disjE) simp_all
  qed
  then have rng: "\<forall>i\<in>{1..8}. push_bit 7 (uint (?p ! (2 * i)) AND 7) + uint (?p ! (2 * i + 1)) \<le> 1023"
    by blast
  have acc: "payload ?g = []" by (simp add: init_gateway_def)
  from decode_in_range[OF len ch idv rng acc] len show ?thesis
    by (simp add: init_gateway_def) blast
qed

text \<open>
  C6 as stated fails: the low byte of an entry is not masked, so a raw value can be as large
  as 1151. A packet that passes the checks on entry 0 and carries 1151 in the entries of D,
  light and slider is published with the readings -13, -10 and 113.
\<close>

theorem decode_out_of_range:
  "drop_bit 3 (uint (248 :: 8 word) - 128) = (15 :: int) \<and> uint (4 :: 8 word) = 4
   \<and> raw_sensor_value
        [248, 4, 135, 255, 136, 0, 144, 0, 152, 1, 160, 0, 175, 255, 176, 18, 191, 255] 1
        = Inr 1151
   \<and> run_cycle [248, 4, 135, 255, 136, 0, 144, 0, 152, 1, 160, 0, 175, 255, 176, 18, 191, 255]
        (init_gateway ''from_picoboard_gateway'') =
        Inr \<lparr>publisher_topic = ''from_picoboard_gateway'', payload = [],
              published = [([Some (- 13), Some 100, Some 100, Some 0, Some 100, Some (- 10),
                             Some 2, Some 113], ''from_picoboard_gateway'')],
              polls = 1\<rparr>"
proof -
  let ?p = "[248, 4, 135, 255, 136, 0, 144, 0, 152, 1, 160, 0, 175, 255, 176, 18, 191, 255] :: 8 word list"
  have len: "length ?p = 18" by simp
  have e0: "(drop_bit 3 (uint (?p ! 0) - 128) \<noteq> 15 \<and> drop_bit 3 (uint (?p ! 0) - 128) \<noteq> 0)
             \<or> uint (?p ! 1) = 4" by simp
  have "raw_sensor_value ?p 1 = Inr 1151"
    by (simp add: raw_sensor_value_def byte_at_def)
  then show ?thesis
    by (simp add: run_cycle_readings[OF len e0] init_gateway_def)
qed

text \<open>
  C7. For a packet that passes the checks on entry 0 and whose button entry carries the raw
  value \<open>r\<close>, the fourth published reading is 1 when \<open>r = 0\<close> and 0 for every other \<open>r\<close>.
\<close>

theorem button_published:
  assumes len: "length p = 18"
    and ch: "drop_bit 3 (uint (p ! 0) - 128) = 15 \<or> drop_bit 3 (uint (p ! 0) - 128) = 0"
    and idv: "uint (p ! 1) = 4"
    and raw: "raw_sensor_value p button_position = Inr r"
    and acc: "payload g = []"
  shows "\<exists>D C B A lt snd sl.
          run_cycle p g =
            Inr (g\<lparr>published := published g @
                     [([D, C, B, Some (if r = 0 then 1 else 0), A, lt, snd, sl],
                       publisher_topic g)],
                   payload := [], polls := Suc (polls g)\<rparr>)"
proof -
  have "raw_sensor_value p 4 = Inr (push_bit 7 (uint (p ! (2 * 4)) AND 7) + uint (p ! (2 * 4 + 1)))"
    using len by (intro raw_sensor_value_18) simp_all
  with raw have req: "push_bit 7 (uint (p ! (2 * 4)) AND 7) + uint (p ! (2 * 4 + 1)) = r"
    by (simp add: button_position_def)
  have e0: "(drop_bit 3 (uint (p ! 0) - 128) \<noteq> 15 \<and> drop_bit 3 (uint (p ! 0) - 128) \<noteq> 0)
             \<or> uint (p ! 1) = 4" using idv by simp
  show ?thesis
    unfolding run_cycle_readings[OF len e0] req acc by (intro exI) simp
qed

text \<open>
  The theorem at a packet whose button entry is 1.
\<close>

theorem button_published_witness:
  "raw_sensor_value [248, 4, 128, 0, 136, 0, 144, 0, 152, 1, 160, 0, 171, 12, 176, 18, 184, 0]
        button_position = Inr 1
   \<and> (\<exists>D C B A lt snd sl.
        run_cycle [248, 4, 128, 0, 136, 0, 144, 0, 152, 1, 160, 0, 171, 12, 176, 18, 184, 0]
          (init_gateway ''from_picoboard_gateway'') =
          Inr \<lparr>publisher_topic = ''from_picoboard_gateway'', payload = [],
                published = [([D, C, B, Some 0, A, lt, snd, sl], ''from_picoboard_gateway'')],
                polls = 1\<rparr>)"
proof -
  let ?p = "[248, 4, 128, 0, 136, 0, 144, 0, 152, 1, 160, 0, 171, 12, 176, 18, 184, 0] :: 8 word list"
  let ?g = "init_gateway ''from_picoboard_gateway''"
  have len: "length ?p = 18" by simp
  have ch: "drop_bit 3 (uint (?p ! 0) - 128) = 15 \<or> drop_bit 3 (uint (?p ! 0) - 128) = 0"
    by simp
  have idv: "uint (?p ! 1) = 4" by simp
  have raw: "raw_sensor_value ?p button_position = Inr 1"
    by (simp add: raw_sensor_value_def byte_at_def button_position_def)
  have acc: "payload ?g = []" by (simp add: init_gateway_def)
  from button_published[OF len ch idv raw acc] raw show ?thesis
    by (simp add: init_gateway_def)
qed

text \<open>
  C10. For every packet of 18 bytes whose entry 0 has channel id 0 or 15 and an id value
  other than 4, the cycle still calls \<^verbatim>\<open>publish_payload\<close> once, with the accumulator as it
  stood when the cycle began, and then replaces the accumulator by an empty one whatever it
  held. In every state that \<^verbatim>\<open>run\<close> reaches from the constructor the accumulator is empty
  when the cycle begins, so the published report is empty.
\<close>

theorem bad_id_value_publishes_empty_report:
  assumes len: "length p = 18"
    and ch: "drop_bit 3 (uint (p ! 0) - 128) = 0 \<or> drop_bit 3 (uint (p ! 0) - 128) = 15"
    and idv: "uint (p ! 1) \<noteq> 4"
  shows "run_cycle p g =
           Inr (g\<lparr>published := published g @ [(payload g, publisher_topic g)],
                  payload := [], polls := Suc (polls g)\<rparr>)
       \<and> (\<forall>ps topic. run ps (init_gateway topic) = Inr g \<longrightarrow>
             run_cycle p g =
               Inr (g\<lparr>published := published g @ [([], publisher_topic g)],
                      payload := [], polls := Suc (polls g)\<rparr>))"
proof -
  from ch have ch': "drop_bit 3 (uint (p ! 0) - 128) = 15 \<or> drop_bit 3 (uint (p ! 0) - 128) = 0"
    by blast
  have r: "run_cycle p g =
           Inr (g\<lparr>published := published g @ [(payload g, publisher_topic g)],
                  payload := [], polls := Suc (polls g)\<rparr>)"
    by (rule run_cycle_break[OF len ch' idv])
  have "run_cycle p g =
      Inr (g\<lparr>published := published g @ [([], publisher_topic g)],
             payload := [], polls := Suc (polls g)\<rparr>)"
    if "run ps (init_gateway topic) = Inr g" for ps topic
    using r run_payload[OF that] by simp
  with r show ?thesis by blast
qed

text \<open>
  The theorem at a packet with channel id 15 and id value 5: in a state whose accumulator
  holds a reading, where the reading is published and the accumulator is emptied, and in the
  state that \<^verbatim>\<open>run\<close> reaches after one good packet, where the report is empty.
\<close>

theorem bad_id_value_witness:
  "run_cycle [248, 5, 128, 0, 136, 0, 144, 0, 152, 1, 160, 0, 171, 12, 176, 18, 184, 0]
        \<lparr>publisher_topic = ''from_picoboard_gateway'', payload = [Some 7], published = [],
          polls = 1\<rparr> =
        Inr \<lparr>publisher_topic = ''from_picoboard_gateway'', payload = [],
              published = [([Some 7], ''from_picoboard_gateway'')], polls = 2\<rparr>
   \<and> run [[248, 4, 128, 0, 136, 0, 144, 0, 152, 1, 160, 0, 171, 12, 176, 18, 184, 0]]
        (init_gateway ''from_picoboard_gateway'') =
        Inr \<lparr>publisher_topic = ''from_picoboard_gateway'', payload = [],
              published = [([Some 100, Some 100, Some 100, Some 0, Some 100, Some 47, Some 2,
                             Some 0], ''from_picoboard_gateway'')], polls = 2\<rparr>
   \<and> run_cycle [248, 5, 128, 0, 136, 0, 144, 0, 152, 1, 160, 0, 171, 12, 176, 18, 184, 0]
        \<lparr>publisher_topic = ''from_picoboard_gateway'', payload = [],
          published = [([Some 100, Some 100, Some 100, Some 0, Some 100, Some 47, Some 2,
                         Some 0], ''from_picoboard_gateway'')], polls = 2\<rparr> =
        Inr \<lparr>publisher_topic = ''from_picoboard_gateway'', payload = [],
              published = [([Some 100, Some 100, Some 100, Some 0, Some 100, Some 47, Some 2,
                             Some 0], ''from_picoboard_gateway''),
                           ([], ''from_picoboard_gateway'')], polls = 3\<rparr>"
proof -
  let ?p = "[248, 5, 128, 0, 136, 0, 144, 0, 152, 1, 160, 0, 171, 12, 176, 18, 184, 0] :: 8 word list"
  let ?q = "[248, 4, 128, 0, 136, 0, 144, 0, 152, 1, 160, 0, 171, 12, 176, 18, 184, 0] :: 8 word list"
  let ?g = "\<lparr>publisher_topic = ''from_picoboard_gateway'', payload = [Some 7], published = [],
          polls = 1\<rparr>"
  let ?h = "\<lparr>publisher_topic = ''from_picoboard_gateway'', payload = [],
          published = [([Some 100, Some 100, Some 100, Some 0, Some 100, Some 47, Some 2,
                         Some 0], ''from_picoboard_gateway'')], polls = 2\<rparr>"
  have len: "length ?p = 18" "length ?q = 18" by simp_all
  have ch: "drop_bit 3 (uint (?p ! 0) - 128) = 0 \<or> drop_bit 3 (uint (?p ! 0) - 128) = 15"
    by simp
  have idv: "uint (?p ! 1) \<noteq> 4" by simp
  have e0: "(drop_bit 3 (uint (?q ! 0) - 128) \<noteq> 15 \<and> drop_bit 3 (uint (?q ! 0) - 128) \<noteq> 0)
             \<or> uint (?q ! 1) = 4" by simp
  have reach: "run [?q] (init_gateway ''from_picoboard_gateway'') = Inr ?h"
    by (simp add: run_def run_cycle_readings[OF len(2) e0] init_gateway_def)
  from bad_id_value_publishes_empty_report[OF len(1) ch idv, of ?g]
  have one: "run_cycle ?p ?g =
        Inr \<lparr>publisher_topic = ''from_picoboard_gateway'', payload = [],
              published = [([Some 7], ''from_picoboard_gateway'')], polls = 2\<rparr>"
    by simp
  from bad_id_value_publishes_empty_report[OF len(1) ch idv, of ?h] reach
  have "run_cycle ?p ?h =
      Inr (?h\<lparr>published := published ?h @ [([], publisher_topic ?h)],
             payload := [], polls := Suc (polls ?h)\<rparr>)"
    by blast
  then have two: "run_cycle ?p ?h =
        Inr \<lparr>publisher_topic = ''from_picoboard_gateway'', payload = [],
              published = [([Some 100, Some 100, Some 100, Some 0, Some 100, Some 47, Some 2,
                             Some 0], ''from_picoboard_gateway''),
                           ([], ''from_picoboard_gateway'')], polls = 3\<rparr>"
    by simp
  from one reach two show ?thesis by blast
qed

subsection \<open>The sonar\<close>

text \<open>
  C8, as the code has it. The time limit is looked at only after a poll that found the pin
  unchanged. \<^verbatim>\<open>read\<close> returns -1 when the echo pin is low at every poll up to one after which
  the clock is more than 0.03 s past the reading taken after the trigger. It returns -2 when
  the pin was seen high at poll \<open>n\<close> and is still high at every later poll up to one after which
  the clock is more than 0.03 s past \<open>T1\<close>, the reading taken when the pin was seen high.
  Otherwise, with \<open>T2\<close> the reading taken after the first low poll that follows, it returns
  the float \<open>((T2 - T1) * 340 / 2) * 100\<close>, however late \<open>T1\<close> and \<open>T2\<close> are; that float is
  within a relative \<open>2\<^sup>-\<^sup>5\<^sup>0\<close> of the exact product, and it is exactly 170 when the float
  difference of \<open>T2\<close> and \<open>T1\<close> is the float 0.01. The two sentinels differ.
\<close>

theorem read_outcomes:
  fixes w :: world and n m :: nat
  defines "T1 \<equiv> clock w (Suc n)" and "T2 \<equiv> clock w (n + m + 2)"
  shows "((\<forall>k\<le>n. \<not> echo_polls w k) \<and> timed_out (clock w (Suc n)) (clock w 0)
            \<longrightarrow> read w = Some (PyInt (- 1)))
       \<and> ((\<forall>k<n. \<not> echo_polls w k \<and> \<not> timed_out (clock w (Suc k)) (clock w 0))
            \<and> (\<forall>k\<le>Suc m. echo_polls w (n + k)) \<and> timed_out T2 T1
            \<longrightarrow> read w = Some (PyInt (- 2)))
       \<and> ((\<forall>k<n. \<not> echo_polls w k \<and> \<not> timed_out (clock w (Suc k)) (clock w 0))
            \<and> echo_polls w n
            \<and> (\<forall>k<m. echo_polls w (Suc n + k) \<and> \<not> timed_out (clock w (n + k + 2)) T1)
            \<and> \<not> echo_polls w (Suc n + m)
            \<longrightarrow> read w = Some (PyFloat (float_mul_int (float_div_int
                                (float_mul_int (float_sub T2 T1) 340) 2) 100))
              \<and> \<bar>float_mul_int (float_div_int (float_mul_int (float_sub T2 T1) 340) 2) 100
                   - (T2 - T1) * 340 / 2 * 100\<bar> \<le> \<bar>(T2 - T1) * 340 / 2 * 100\<bar> / 2 ^ 50
              \<and> (float_sub T2 T1 = fl (1 / 100) \<longrightarrow> read w = Some (PyFloat 170)))
       \<and> PyInt (- 1) \<noteq> PyInt (- 2)"
proof (intro conjI impI)
  assume "(\<forall>k\<le>n. \<not> echo_polls w k) \<and> timed_out (clock w (Suc n)) (clock w 0)"
  then show "read w = Some (PyInt (- 1))" by (intro read_no_echo_start[where n = n]) simp_all
next
  assume "(\<forall>k<n. \<not> echo_polls w k \<and> \<not> timed_out (clock w (Suc k)) (clock w 0))
            \<and> (\<forall>k\<le>Suc m. echo_polls w (n + k)) \<and> timed_out T2 T1"
  then show "read w = Some (PyInt (- 2))"
    unfolding T1_def T2_def by (intro read_no_echo_end[where n = n and m = m]) simp_all
next
  assume a: "(\<forall>k<n. \<not> echo_polls w k \<and> \<not> timed_out (clock w (Suc k)) (clock w 0))
            \<and> echo_polls w n
            \<and> (\<forall>k<m. echo_polls w (Suc n + k) \<and> \<not> timed_out (clock w (n + k + 2)) T1)
            \<and> \<not> echo_polls w (Suc n + m)"
  then show r: "read w = Some (PyFloat (float_mul_int (float_div_int
                                (float_mul_int (float_sub T2 T1) 340) 2) 100))"
    unfolding T1_def T2_def by (intro read_distance) simp_all
  assume "float_sub T2 T1 = fl (1 / 100)"
  with r show "read w = Some (PyFloat 170)" by (simp add: hundredth_of_a_second)
next
  have eq: "(T2 - T1) * 340 / 2 * 100 = (T2 - T1) * 17000" by simp
  show "\<bar>float_mul_int (float_div_int (float_mul_int (float_sub T2 T1) 340) 2) 100
                   - (T2 - T1) * 340 / 2 * 100\<bar> \<le> \<bar>(T2 - T1) * 340 / 2 * 100\<bar> / 2 ^ 50"
    unfolding eq by (rule distance_close)
qed simp

text \<open>
  The theorem in three worlds whose clock readings are floats: an echo pin that stays low
  while the clock is read every 1/64 s, one that goes high and stays high, and a pulse seen
  between the readings 0.0 and 0.01.
\<close>

theorem read_outcomes_witness:
  "read \<lparr>echo_polls = (\<lambda>k. False), clock = (\<lambda>k. of_nat k / 64)\<rparr> = Some (PyInt (- 1))
   \<and> read \<lparr>echo_polls = (\<lambda>k. 0 < k), clock = (\<lambda>k. of_nat k / 64)\<rparr> = Some (PyInt (- 2))
   \<and> read \<lparr>echo_polls = (\<lambda>k. k = 0), clock = (\<lambda>k. if k < 2 then 0 else fl (1 / 100))\<rparr>
       = Some (PyFloat 170)"
proof -
  let ?A = "\<lparr>echo_polls = (\<lambda>k. False), clock = (\<lambda>k. of_nat k / 64)\<rparr>"
  let ?B = "\<lparr>echo_polls = (\<lambda>k. 0 < k), clock = (\<lambda>k. of_nat k / 64)\<rparr>"
  let ?C = "\<lparr>echo_polls = (\<lambda>k. k = 0), clock = (\<lambda>k. if k < 2 then 0 else fl (1 / 100))\<rparr>"
  have late: "timed_out (2 / 64) 0" "timed_out (4 / 64) (2 / 64)" and early: "\<not> timed_out (1 / 64) 0"
    by code_simp+
  have a: "(\<forall>k\<le>1. \<not> echo_polls ?A k) \<and> timed_out (clock ?A (Suc 1)) (clock ?A 0)"
    using late(1) by simp
  have b: "(\<forall>k<1. \<not> echo_polls ?B k \<and> \<not> timed_out (clock ?B (Suc k)) (clock ?B 0))
      \<and> (\<forall>k\<le>Suc 1. echo_polls ?B (1 + k))
      \<and> timed_out (clock ?B (1 + 1 + 2)) (clock ?B (Suc 1))"
    using late(2) early by simp
  have d: "float_sub (fl (1 / 100)) 0 = fl (1 / 100)" by code_simp
  have c: "(\<forall>k<0. \<not> echo_polls ?C k \<and> \<not> timed_out (clock ?C (Suc k)) (clock ?C 0))
      \<and> echo_polls ?C 0
      \<and> (\<forall>k<0. echo_polls ?C (Suc 0 + k) \<and> \<not> timed_out (clock ?C (0 + k + 2)) (clock ?C (Suc 0)))
      \<and> \<not> echo_polls ?C (Suc 0 + 0)"
    by simp
  have e: "float_sub (clock ?C (0 + 0 + 2)) (clock ?C (Suc 0)) = fl (1 / 100)"
    using d by simp
  from read_outcomes[where w = ?A and n = 1 and m = 0] a have "read ?A = Some (PyInt (- 1))" by blast
  moreover from read_outcomes[where w = ?B and n = 1 and m = 1] b have "read ?B = Some (PyInt (- 2))" by blast
  moreover from read_outcomes[where w = ?C and n = 0 and m = 0] c e have "read ?C = Some (PyFloat 170)" by blast
  ultimately show ?thesis by blast
qed

text \<open>
  C8 as stated fails. Where the first poll already finds the echo pin high, the clock reading
  taken then is not compared with anything: a rise stamped 62.5 ms after the trigger gives a
  distance, not -1. Where the first poll after the rise finds the pin low, likewise: a fall
  stamped 62.5 ms after the rise gives a distance, not -2.
\<close>

theorem read_late_edges:
  "timed_out (1 / 16) 0
   \<and> read \<lparr>echo_polls = (\<lambda>k. k = 0),
            clock = (\<lambda>k. if k = 0 then 0 else if k = 1 then 1 / 16 else 5 / 64)\<rparr>
       = Some (PyFloat (2125 / 8))
   \<and> read \<lparr>echo_polls = (\<lambda>k. k = 0), clock = (\<lambda>k. if k < 2 then 0 else 1 / 16)\<rparr>
       = Some (PyFloat (2125 / 2))"
proof -
  let ?A = "\<lparr>echo_polls = (\<lambda>k. k = 0),
            clock = (\<lambda>k. if k = 0 then 0 else if k = 1 then 1 / 16 else 5 / 64)\<rparr>"
  let ?B = "\<lparr>echo_polls = (\<lambda>k. k = 0), clock = (\<lambda>k. if k < 2 then (0::rat) else 1 / 16)\<rparr>"
  have t: "timed_out (1 / 16) 0" by code_simp
  have v: "float_mul_int (float_div_int (float_mul_int (float_sub (5 / 64) (1 / 16)) 340) 2) 100
             = 2125 / 8"
    "float_mul_int (float_div_int (float_mul_int (float_sub (1 / 16) 0) 340) 2) 100 = 2125 / 2"
    by code_simp+
  have "read ?A = Some (PyFloat (float_mul_int (float_div_int
            (float_mul_int (float_sub (clock ?A (0 + 0 + 2)) (clock ?A (Suc 0))) 340) 2) 100))"
    by (rule read_distance) simp_all
  moreover have "read ?B = Some (PyFloat (float_mul_int (float_div_int
            (float_mul_int (float_sub (clock ?B (0 + 0 + 2)) (clock ?B (Suc 0))) 340) 2) 100))"
    by (rule read_distance) simp_all
  ultimately show ?thesis using t v by simp
qed

text \<open>
  C9. \<^verbatim>\<open>cancel\<close> is idempotent on the sonar and the gpio state together, so a second call
  changes nothing and issues no \<^verbatim>\<open>set_mode\<close>; the first call after \<^verbatim>\<open>__init__\<close> gives the
  trigger and the echo line, and with them every gpio, the mode they had before
  \<^verbatim>\<open>__init__\<close>.
\<close>

theorem cancel_idempotent:
  "cancel (cancel sh) = cancel sh
   \<and> get_mode (snd (cancel (sonar_init h t e))) t = get_mode h t
   \<and> get_mode (snd (cancel (sonar_init h t e))) e = get_mode h e
   \<and> modes (snd (cancel (sonar_init h t e))) = modes h
   \<and> mode_calls (snd (cancel (cancel (sonar_init h t e))))
       = mode_calls (snd (cancel (sonar_init h t e)))"
proof -
  have i: "cancel (cancel x) = cancel x" for x
    by (cases x) (simp add: cancel_def Let_def)
  have m: "modes (snd (cancel (sonar_init h t e))) = modes h"
    by (simp add: cancel_def sonar_init_def Let_def set_mode_def get_mode_def)
  show ?thesis by (simp add: i m get_mode_def)
qed

end
